theory Spec2Isabelle
  imports Main "HOL-Library.Word" "HOL-Library.Monad_Syntax"
begin

unbundle bit_operations_syntax

section \<open>A shallow embedding of the vtpc page cache (src/lib/vtpc.c)\<close>

text \<open>
  The library keeps, per handle, a 2Q cache of file pages: two lists of resident pages
  (A1in, Am), a list of ghost page numbers (A1out) and two open-addressing hash tables.
  The embedding follows the C functions one by one and keeps their names.

  Conventions of the embedding:
  \<^item> \<open>size_t\<close> counters of the cache (\<open>capacity\<close>, \<open>kin\<close>, \<open>a1in_sz\<close>, ...) are
    \<open>64 word\<close>: \<open>x--\<close> at zero wraps to \<open>2^64 - 1\<close> as in C.
  \<^item> file offsets (\<open>off_t\<close>), byte counts and page numbers are \<open>int\<close>/\<open>nat\<close>. The
    sum that \<open>vtpc_lseek\<close> forms from its argument wraps around at \<open>2^63\<close>; the cursor
    moved by a read or a write is taken to stay below \<open>2^63\<close> (beyond it the C
    addition is undefined).
  \<^item> pointers are addresses (\<open>nat\<close>, \<open>NULL = 0\<close>) into an explicit store of page
    entries and ghost entries; \<open>free\<close> removes the object from the store.
  \<^item> an intrusive doubly linked list (head, tail, prev/next links) is the list of the
    addresses of its nodes, head first.
  \<^item> a function that returns \<open>-1\<close> with \<open>errno\<close> set returns \<open>Inl errno\<close>.
  \<^item> a \<open>for (;;)\<close> or \<open>while\<close> loop that need not terminate is a
    \<open>partial_function (option)\<close>: \<open>None\<close> means that the call never returns.
  \<^item> the operating system is a model of its own: the backing file is a byte list, and
    every call that may fail (\<open>calloc\<close>, \<open>posix_memalign\<close>, \<open>pread\<close>, \<open>pwrite\<close>,
    \<open>ftruncate\<close>, \<open>fsync\<close>) takes its outcome from a script of faults.
\<close>

subsection \<open>Basic types\<close>

type_synonym byte = "8 word"
type_synonym size_t = "64 word"

datatype errno = EBADF | EINVAL | ENOMEM | EMFILE | EIO | ENOSPC | EINTR

abbreviation NULL :: nat where "NULL \<equiv> 0"

definition VTPC_DEFAULT_CACHE_PAGES :: size_t where
  "VTPC_DEFAULT_CACHE_PAGES = 256"

definition min_sz :: "nat \<Rightarrow> nat \<Rightarrow> nat" where
  "min_sz a b = (if a < b then a else b)"

definition max_sz :: "nat \<Rightarrow> nat \<Rightarrow> nat" where
  "max_sz a b = (if a > b then a else b)"

definition vtpc_page_size :: "int \<Rightarrow> nat" where
  \<comment> \<open>the argument is the value of \<open>sysconf(_SC_PAGESIZE)\<close>\<close>
  "vtpc_page_size ps = (if ps \<le> 0 then 4096 else nat ps)"

partial_function (option) next_pow2_loop :: "size_t \<Rightarrow> size_t \<Rightarrow> size_t option" where
  "next_pow2_loop p x = (if p < x then next_pow2_loop (push_bit 1 p) x else Some p)"

declare next_pow2_loop.simps [code]

definition next_pow2 :: "size_t \<Rightarrow> size_t option" where
  "next_pow2 x = next_pow2_loop 1 x"

definition hash_u64 :: "64 word \<Rightarrow> 64 word" where
  "hash_u64 x0 =
    (let x1 = x0 + 0x9e3779b97f4a7c15;
         x2 = (x1 XOR drop_bit 30 x1) * 0xbf58476d1ce4e5b9;
         x3 = (x2 XOR drop_bit 27 x2) * 0x94d049bb133111eb
     in x3 XOR drop_bit 31 x3)"

subsection \<open>The environment: store, backing file, faults\<close>

datatype page_queue_t = Q_NONE | Q_A1IN | Q_AM
  \<comment> \<open>\<open>Q_NONE\<close> is the value 0 that \<open>calloc\<close> leaves in the field\<close>

record page_entry =
  page_no :: nat
  data :: "byte list"
  valid_len :: nat
  dirty :: bool
  q :: page_queue_t

record world =
  disk :: "byte list"
  faults :: "errno option list"
  pages :: "nat \<rightharpoonup> page_entry"
  ghost_mem :: "nat \<rightharpoonup> nat"
  next_addr :: nat

text \<open>
  \<open>disk\<close> is the content of the file behind the handle's OS descriptor, \<open>pages\<close> the
  allocated \<open>page_entry_t\<close> objects (each with its page buffer), \<open>ghost_mem\<close> the
  allocated \<open>ghost_entry_t\<close> objects (their only payload is the page number), and
  \<open>next_addr\<close> the next address the allocator hands out. Each fallible call takes
  the head of \<open>faults\<close>: \<open>Some e\<close> makes it fail with \<open>errno = e\<close>, \<open>None\<close> or an
  empty script lets it succeed.
\<close>

text \<open>
  The open flags are those of \<open><fcntl.h>\<close> on Linux. The descriptor behind a handle is
  opened with the flags of \<open>vtpc_open\<close>, so the calls on it see the access mode and
  \<open>O_APPEND\<close>: \<open>pread\<close> fails with \<open>EBADF\<close> on a descriptor that is not open for
  reading, \<open>pwrite\<close> fails with \<open>EBADF\<close> and \<open>ftruncate\<close> with \<open>EINVAL\<close> on one that is
  not open for writing, and on Linux \<open>pwrite\<close> on an \<open>O_APPEND\<close> descriptor appends
  whatever the offset is.
\<close>

definition O_RDONLY :: nat where "O_RDONLY = 0"
definition O_WRONLY :: nat where "O_WRONLY = 1"
definition O_RDWR :: nat where "O_RDWR = 2"
definition O_ACCMODE :: nat where "O_ACCMODE = 3"
definition O_APPEND :: nat where "O_APPEND = 1024"

definition fd_readable :: "nat \<Rightarrow> bool" where
  "fd_readable fl = (fl AND O_ACCMODE = O_RDONLY \<or> fl AND O_ACCMODE = O_RDWR)"

definition fd_writable :: "nat \<Rightarrow> bool" where
  "fd_writable fl = (fl AND O_ACCMODE = O_WRONLY \<or> fl AND O_ACCMODE = O_RDWR)"

definition next_fault :: "world \<Rightarrow> errno option \<times> world" where
  "next_fault w = (case faults w of [] \<Rightarrow> (None, w) | f # fs \<Rightarrow> (f, w\<lparr>faults := fs\<rparr>))"

definition alloc :: "world \<Rightarrow> nat \<times> world" where
  \<comment> \<open>\<open>calloc\<close> / \<open>posix_memalign\<close>: a fresh address, or \<open>NULL\<close>\<close>
  "alloc w = (case next_fault w of
      (Some e, w') \<Rightarrow> (NULL, w')
    | (None, w') \<Rightarrow> (next_addr w', w'\<lparr>next_addr := Suc (next_addr w')\<rparr>))"

definition pread :: "world \<Rightarrow> nat \<Rightarrow> nat \<Rightarrow> nat \<Rightarrow> (errno + byte list) \<times> world" where
  \<comment> \<open>\<open>fl\<close> are the open flags of the descriptor; the result is the bytes of the file
      from \<open>off\<close>, at most \<open>n\<close> of them\<close>
  "pread w fl n off =
    (if \<not> fd_readable fl then (Inl EBADF, w)
     else case next_fault w of
        (Some e, w') \<Rightarrow> (Inl e, w')
      | (None, w') \<Rightarrow> (Inr (take n (drop off (disk w'))), w'))"

definition disk_pwrite :: "byte list \<Rightarrow> byte list \<Rightarrow> nat \<Rightarrow> byte list" where
  \<comment> \<open>the file after \<open>buf\<close> is written at \<open>off\<close>; a gap after the old end reads as zeros\<close>
  "disk_pwrite d buf off =
    (let d0 = d @ replicate (off - length d) 0 in take off d0 @ buf @ drop (off + length buf) d0)"

definition disk_truncate :: "byte list \<Rightarrow> nat \<Rightarrow> byte list" where
  \<comment> \<open>the file cut or zero-extended to \<open>n\<close> bytes\<close>
  "disk_truncate d n = take n d @ replicate (n - length d) 0"

definition pwrite :: "world \<Rightarrow> nat \<Rightarrow> byte list \<Rightarrow> nat \<Rightarrow> (errno + nat) \<times> world" where
  \<comment> \<open>writes all of \<open>buf\<close>: at the end of the file on an \<open>O_APPEND\<close> descriptor, at
      \<open>off\<close> otherwise\<close>
  "pwrite w fl buf off =
    (if \<not> fd_writable fl then (Inl EBADF, w)
     else case next_fault w of
        (Some e, w') \<Rightarrow> (Inl e, w')
      | (None, w') \<Rightarrow>
          (Inr (length buf),
           w'\<lparr>disk := (if fl AND O_APPEND \<noteq> 0 then disk w' @ buf
                        else disk_pwrite (disk w') buf off)\<rparr>))"

definition ftruncate :: "world \<Rightarrow> nat \<Rightarrow> int \<Rightarrow> errno option \<times> world" where
  "ftruncate w fl len =
    (if \<not> fd_writable fl then (Some EINVAL, w)
     else case next_fault w of
        (Some e, w') \<Rightarrow> (Some e, w')
      | (None, w') \<Rightarrow>
          (if len < 0 then (Some EINVAL, w')
           else (None, w'\<lparr>disk := disk_truncate (disk w') (nat len)\<rparr>)))"

definition fsync :: "world \<Rightarrow> errno option \<times> world" where
  "fsync w = (case next_fault w of (Some e, w') \<Rightarrow> (Some e, w') | (None, w') \<Rightarrow> (None, w'))"

subsection \<open>Hash index\<close>

record ht_t =
  cap :: nat
  keys :: "nat list"
  vals :: "nat list"
  state :: "nat list"

definition ht_zero :: ht_t where
  \<comment> \<open>\<open>memset(t, 0, sizeof(*t))\<close>\<close>
  "ht_zero = \<lparr>cap = 0, keys = [], vals = [], state = []\<rparr>"

definition ht_init :: "nat \<Rightarrow> world \<Rightarrow> (errno + ht_t) \<times> world" where
  "ht_init cap_pow2 w =
    (let (k, w1) = alloc w; (v, w2) = alloc w1; (s, w3) = alloc w2
     in if k = NULL \<or> v = NULL \<or> s = NULL then (Inl ENOMEM, w3)
        else (Inr \<lparr>cap = cap_pow2, keys = replicate cap_pow2 0,
                   vals = replicate cap_pow2 NULL, state = replicate cap_pow2 0\<rparr>, w3))"

definition ht_slot :: "ht_t \<Rightarrow> nat \<Rightarrow> nat" where
  \<comment> \<open>\<open>(size_t)(hash_u64(key) & mask)\<close> with \<open>mask = cap - 1\<close>\<close>
  "ht_slot t key = unat (hash_u64 (word_of_nat key) AND word_of_nat (cap t - 1))"

partial_function (option) ht_get_loop :: "ht_t \<Rightarrow> nat \<Rightarrow> nat \<Rightarrow> nat option" where
  "ht_get_loop t key i =
    (let st = state t ! i in
     if st = 0 then Some NULL
     else if st = 1 \<and> keys t ! i = key then Some (vals t ! i)
     else ht_get_loop t key ((i + 1) AND (cap t - 1)))"

declare ht_get_loop.simps [code]

definition ht_get :: "ht_t \<Rightarrow> nat \<Rightarrow> nat option" where
  "ht_get t key = (if cap t = 0 then Some NULL else ht_get_loop t key (ht_slot t key))"

partial_function (option) ht_put_loop ::
  "ht_t \<Rightarrow> nat \<Rightarrow> nat \<Rightarrow> nat \<Rightarrow> nat option \<Rightarrow> ht_t option" where
  "ht_put_loop t key val i first_tomb =
    (let st = state t ! i in
     if st = 0 then
       (let idx = (case first_tomb of Some ft \<Rightarrow> ft | None \<Rightarrow> i)
        in Some (t\<lparr>state := (state t)[idx := 1], keys := (keys t)[idx := key],
                   vals := (vals t)[idx := val]\<rparr>))
     else
       (let first_tomb' = (if st = 2 \<and> first_tomb = None then Some i else first_tomb)
        in if st = 1 \<and> keys t ! i = key then Some (t\<lparr>vals := (vals t)[i := val]\<rparr>)
           else ht_put_loop t key val ((i + 1) AND (cap t - 1)) first_tomb'))"

declare ht_put_loop.simps [code]

definition ht_put :: "ht_t \<Rightarrow> nat \<Rightarrow> nat \<Rightarrow> ht_t option" where
  \<comment> \<open>\<open>first_tomb = (size_t)-1\<close> is \<open>None\<close>\<close>
  "ht_put t key val = ht_put_loop t key val (ht_slot t key) None"

partial_function (option) ht_del_loop :: "ht_t \<Rightarrow> nat \<Rightarrow> nat \<Rightarrow> ht_t option" where
  "ht_del_loop t key i =
    (let st = state t ! i in
     if st = 0 then Some t
     else if st = 1 \<and> keys t ! i = key
       then Some (t\<lparr>state := (state t)[i := 2], vals := (vals t)[i := NULL]\<rparr>)
     else ht_del_loop t key ((i + 1) AND (cap t - 1)))"

declare ht_del_loop.simps [code]

definition ht_del :: "ht_t \<Rightarrow> nat \<Rightarrow> ht_t option" where
  "ht_del t key = ht_del_loop t key (ht_slot t key)"

subsection \<open>Configuration from the environment\<close>

text \<open>
  \<open>strtol\<close> is the C library's. Its model follows the C standard for base 10: white
  space is skipped, one sign is optional, then the longest run of digits is read; with
  no digit the end pointer is the start of the string; a value out of the range of
  \<open>long\<close> is clamped. \<open>strtol10 s\<close> returns the value and the offset of \<open>end\<close>.
\<close>

definition isspace_c :: "char \<Rightarrow> bool" where
  "isspace_c c = (c \<in> set [CHR '' '', CHR 0x09, CHR 0x0A, CHR 0x0B, CHR 0x0C, CHR 0x0D])"

definition isdigit_c :: "char \<Rightarrow> bool" where
  "isdigit_c c = (48 \<le> (of_char c :: nat) \<and> (of_char c :: nat) \<le> 57)"

fun strtol_digits :: "int \<Rightarrow> string \<Rightarrow> int \<times> string" where
  "strtol_digits acc [] = (acc, [])"
| "strtol_digits acc (c # cs) =
     (if isdigit_c c then strtol_digits (acc * 10 + (of_char c - 48)) cs else (acc, c # cs))"

definition LONG_MAX :: int where "LONG_MAX = 2 ^ 63 - 1"
definition LONG_MIN :: int where "LONG_MIN = - (2 ^ 63)"

definition strtol10 :: "string \<Rightarrow> int \<times> nat" where
  "strtol10 s =
    (let s1 = dropWhile isspace_c s;
         neg = (case s1 of c # cs \<Rightarrow> c = CHR ''-'' | [] \<Rightarrow> False);
         s2 = (case s1 of c # cs \<Rightarrow> if c = CHR ''-'' \<or> c = CHR ''+'' then cs else s1
                        | [] \<Rightarrow> [])
     in case s2 of
          [] \<Rightarrow> (0, 0)
        | d # ds \<Rightarrow>
            if isdigit_c d then
              (let (v, rest) = strtol_digits 0 s2;
                   sv = (if neg then - v else v)
               in (max LONG_MIN (min LONG_MAX sv), length s - length rest))
            else (0, 0))"

record globals =
  g_inited :: bool
  g_cfg_cache_pages :: size_t

definition globals_zero :: globals where
  \<comment> \<open>the static initialisers\<close>
  "globals_zero = \<lparr>g_inited = False, g_cfg_cache_pages = 0\<rparr>"

definition vtpc_init_once :: "string option \<Rightarrow> globals \<Rightarrow> globals" where
  \<comment> \<open>the first argument is \<open>getenv("VTPC_CACHE_PAGES")\<close>\<close>
  "vtpc_init_once env g =
    (if g_inited g then g
     else
       (let g1 = g\<lparr>g_inited := True\<rparr>;
            g2 = (case env of
                    None \<Rightarrow> g1
                  | Some [] \<Rightarrow> g1
                  | Some s \<Rightarrow>
                      (let (v, e) = strtol10 s
                       in if e \<noteq> 0 \<and> v > 0 \<and> v < 10 * 1000 * 1000
                          then g1\<lparr>g_cfg_cache_pages := word_of_int v\<rparr> else g1))
        in if g_cfg_cache_pages g2 = 0
           then g2\<lparr>g_cfg_cache_pages := VTPC_DEFAULT_CACHE_PAGES\<rparr> else g2))"

subsection \<open>Cache state\<close>

record vtpc_cache_t =
  page_size :: nat
  capacity :: size_t
  kin :: size_t
  kout :: size_t
  am_cap :: size_t
  a1in_sz :: size_t
  am_sz :: size_t
  a1out_sz :: size_t
  a1in :: "nat list"
  am :: "nat list"
  a1out :: "nat list"
  resident :: ht_t
  ghosts :: ht_t

record vtpc_handle_t =
  used :: bool
  flags :: nat
  direct :: bool
  pos :: int
  size_h :: int
  cache :: vtpc_cache_t

definition cache_zero :: vtpc_cache_t where
  "cache_zero = \<lparr>page_size = 0, capacity = 0, kin = 0, kout = 0, am_cap = 0,
     a1in_sz = 0, am_sz = 0, a1out_sz = 0, a1in = [], am = [], a1out = [],
     resident = ht_zero, ghosts = ht_zero\<rparr>"

definition cache_init ::
  "size_t \<Rightarrow> nat \<Rightarrow> world \<Rightarrow> ((errno + vtpc_cache_t) \<times> world) option" where
  \<comment> \<open>the first argument is the global \<open>g_cfg_cache_pages\<close>\<close>
  "cache_init cfg ps w =
    (let c0 = cache_zero\<lparr>page_size := ps\<rparr>;
         c1 = c0\<lparr>capacity := cfg\<rparr>;
         c2 = (if capacity c1 < 4 then c1\<lparr>capacity := 4\<rparr> else c1);
         c3 = c2\<lparr>kin := capacity c2 div 4\<rparr>;
         c4 = (if kin c3 < 1 then c3\<lparr>kin := 1\<rparr> else c3);
         c5 = (if kin c4 \<ge> capacity c4 then c4\<lparr>kin := capacity c4 div 2\<rparr> else c4);
         c6 = c5\<lparr>am_cap := capacity c5 - kin c5\<rparr>;
         c7 = (if am_cap c6 < 1 then c6\<lparr>am_cap := 1\<rparr> else c6);
         c8 = c7\<lparr>kout := capacity c7 div 2\<rparr>;
         c9 = (if kout c8 < 1 then c8\<lparr>kout := 1\<rparr> else c8)
     in case next_pow2 (capacity c9 * 4) of
          None \<Rightarrow> None
        | Some resident_cap \<Rightarrow>
           (case next_pow2 (kout c9 * 4) of
              None \<Rightarrow> None
            | Some ghosts_cap \<Rightarrow>
               (case ht_init (unat resident_cap) w of
                  (Inl e, w1) \<Rightarrow> Some (Inl e, w1)
                | (Inr r, w1) \<Rightarrow>
                   (case ht_init (unat ghosts_cap) w1 of
                      (Inl e, w2) \<Rightarrow> Some (Inl e, w2)
                    | (Inr g, w2) \<Rightarrow> Some (Inr (c9\<lparr>resident := r, ghosts := g\<rparr>), w2)))))"

subsection \<open>List primitives\<close>

text \<open>
  A node is on at most one list and at most once, so that unlinking a node is
  \<open>remove1\<close>; unlinking a node that is on no list (its links are \<open>NULL\<close> and it is
  neither head nor tail) changes nothing, as in the C code.
\<close>

definition page_list_remove :: "nat list \<Rightarrow> nat \<Rightarrow> nat list" where
  "page_list_remove l p = (if p = NULL then l else remove1 p l)"

definition page_list_push_front :: "nat list \<Rightarrow> nat \<Rightarrow> nat list" where
  "page_list_push_front l p = p # l"

definition page_list_pop_back :: "nat list \<Rightarrow> nat \<times> nat list" where
  "page_list_pop_back l =
    (case l of [] \<Rightarrow> (NULL, l) | _ # _ \<Rightarrow> (let p = last l in (p, page_list_remove l p)))"

definition ghost_list_remove :: "nat list \<Rightarrow> nat \<Rightarrow> nat list" where
  "ghost_list_remove l g = (if g = NULL then l else remove1 g l)"

definition ghost_list_push_front :: "nat list \<Rightarrow> nat \<Rightarrow> nat list" where
  "ghost_list_push_front l g = g # l"

definition ghost_list_pop_back :: "nat list \<Rightarrow> nat \<times> nat list" where
  "ghost_list_pop_back l =
    (case l of [] \<Rightarrow> (NULL, l) | _ # _ \<Rightarrow> (let g = last l in (g, ghost_list_remove l g)))"

subsection \<open>Page store\<close>

definition drop_os_cache :: "world \<Rightarrow> world" where
  \<comment> \<open>\<open>posix_fadvise\<close> is advisory and its result is ignored\<close>
  "drop_os_cache w = w"

definition pread_fullpage ::
  "vtpc_handle_t \<Rightarrow> nat \<Rightarrow> nat \<Rightarrow> world \<Rightarrow> (errno + byte list) \<times> world" where
  "pread_fullpage h ps off w =
    (case pread w (flags h) ps off of
       (Inl e, w1) \<Rightarrow> (Inl e, w1)
     | (Inr bs, w1) \<Rightarrow> (Inr bs, if \<not> direct h then drop_os_cache w1 else w1))"

definition pwrite_fullpage ::
  "vtpc_handle_t \<Rightarrow> byte list \<Rightarrow> nat \<Rightarrow> nat \<Rightarrow> world \<Rightarrow> (errno + nat) \<times> world" where
  "pwrite_fullpage h buf ps off w =
    (case pwrite w (flags h) (take ps buf) off of
       (Inl e, w1) \<Rightarrow> (Inl e, w1)
     | (Inr n, w1) \<Rightarrow> (Inr n, if \<not> direct h then drop_os_cache w1 else w1))"

definition cache_free_page :: "nat \<Rightarrow> world \<Rightarrow> world" where
  "cache_free_page p w = (if p = NULL then w else w\<lparr>pages := (pages w)(p := None)\<rparr>)"

definition cache_free_ghost :: "nat \<Rightarrow> world \<Rightarrow> world" where
  "cache_free_ghost g w = w\<lparr>ghost_mem := (ghost_mem w)(g := None)\<rparr>"

definition deref :: "world \<Rightarrow> nat \<Rightarrow> page_entry" where
  \<comment> \<open>\<open>*p\<close> for a live \<open>page_entry_t *p\<close>\<close>
  "deref w p = the (pages w p)"

definition cache_flush_page :: "vtpc_handle_t \<Rightarrow> nat \<Rightarrow> world \<Rightarrow> errno option \<times> world" where
  "cache_flush_page h p w =
    (if p = NULL \<or> \<not> dirty (deref w p) then (None, w)
     else
       (let off = page_no (deref w p) * page_size (cache h)
        in case pwrite_fullpage h (data (deref w p)) (page_size (cache h)) off w of
             (Inl e, w1) \<Rightarrow> (Some e, w1)
           | (Inr n, w1) \<Rightarrow>
               (case ftruncate w1 (flags h) (size_h h) of
                  (Some e, w2) \<Rightarrow> (Some e, w2)
                | (None, w2) \<Rightarrow>
                    (None, w2\<lparr>pages := (pages w2)(p \<mapsto> (deref w2 p)\<lparr>dirty := False\<rparr>)\<rparr>))))"

subsection \<open>Policy engine (2Q)\<close>

partial_function (option) cache_trim_a1out ::
  "vtpc_cache_t \<Rightarrow> world \<Rightarrow> (vtpc_cache_t \<times> world) option" where
  "cache_trim_a1out c w =
    (if a1out_sz c > kout c then
       (case ghost_list_pop_back (a1out c) of
          (old, l) \<Rightarrow>
            if old = NULL then Some (c, w)
            else
              (case ht_del (ghosts c) (the (ghost_mem w old)) of
                 None \<Rightarrow> None
               | Some t \<Rightarrow>
                   cache_trim_a1out (c\<lparr>a1out := l, ghosts := t, a1out_sz := a1out_sz c - 1\<rparr>)
                     (cache_free_ghost old w)))
     else Some (c, w))"

declare cache_trim_a1out.simps [code]

definition cache_add_ghost ::
  "vtpc_cache_t \<Rightarrow> nat \<Rightarrow> world \<Rightarrow> (errno option \<times> vtpc_cache_t \<times> world) option" where
  "cache_add_ghost c pn w =
    (case ht_get (ghosts c) pn of
       None \<Rightarrow> None
     | Some existing \<Rightarrow>
         if existing \<noteq> NULL then
           Some (None,
                 c\<lparr>a1out := ghost_list_push_front (ghost_list_remove (a1out c) existing) existing\<rparr>,
                 w)
         else
           (case alloc w of
              (g, w1) \<Rightarrow>
                if g = NULL then Some (Some ENOMEM, c, w1)
                else
                  (let w2 = w1\<lparr>ghost_mem := (ghost_mem w1)(g \<mapsto> pn)\<rparr>;
                       c1 = c\<lparr>a1out := ghost_list_push_front (a1out c) g,
                              a1out_sz := a1out_sz c + 1\<rparr>
                   in case ht_put (ghosts c1) pn g of
                        None \<Rightarrow> None
                      | Some t \<Rightarrow>
                          (case cache_trim_a1out (c1\<lparr>ghosts := t\<rparr>) w2 of
                             None \<Rightarrow> None
                           | Some (c2, w3) \<Rightarrow> Some (None, c2, w3)))))"

definition evict_from_a1in ::
  "vtpc_handle_t \<Rightarrow> world \<Rightarrow> (errno option \<times> vtpc_handle_t \<times> world) option" where
  "evict_from_a1in h w =
    (let c = cache h in
     case page_list_pop_back (a1in c) of
       (victim, l) \<Rightarrow>
         if victim = NULL then Some (None, h, w)
         else
           (let c1 = c\<lparr>a1in := l, a1in_sz := a1in_sz c - 1\<rparr>
            in case ht_del (resident c1) (page_no (deref w victim)) of
                 None \<Rightarrow> None
               | Some t \<Rightarrow>
                   (let c2 = c1\<lparr>resident := t\<rparr>
                    in case cache_flush_page (h\<lparr>cache := c2\<rparr>) victim w of
                         (Some e, w1) \<Rightarrow>
                           (let c3 = c2\<lparr>a1in := page_list_push_front (a1in c2) victim,
                                          a1in_sz := a1in_sz c2 + 1\<rparr>
                            in case ht_put (resident c3) (page_no (deref w1 victim)) victim of
                                 None \<Rightarrow> None
                               | Some t' \<Rightarrow> Some (Some e, h\<lparr>cache := c3\<lparr>resident := t'\<rparr>\<rparr>, w1))
                       | (None, w1) \<Rightarrow>
                           (case cache_add_ghost c2 (page_no (deref w1 victim)) w1 of
                              None \<Rightarrow> None
                            | Some (rc, c3, w2) \<Rightarrow>
                                Some (None, h\<lparr>cache := c3\<rparr>, cache_free_page victim w2)))))"

definition evict_from_am ::
  "vtpc_handle_t \<Rightarrow> world \<Rightarrow> (errno option \<times> vtpc_handle_t \<times> world) option" where
  "evict_from_am h w =
    (let c = cache h in
     case page_list_pop_back (am c) of
       (victim, l) \<Rightarrow>
         if victim = NULL then Some (None, h, w)
         else
           (let c1 = c\<lparr>am := l, am_sz := am_sz c - 1\<rparr>
            in case ht_del (resident c1) (page_no (deref w victim)) of
                 None \<Rightarrow> None
               | Some t \<Rightarrow>
                   (let c2 = c1\<lparr>resident := t\<rparr>
                    in case cache_flush_page (h\<lparr>cache := c2\<rparr>) victim w of
                         (Some e, w1) \<Rightarrow>
                           (let c3 = c2\<lparr>am := page_list_push_front (am c2) victim,
                                          am_sz := am_sz c2 + 1\<rparr>
                            in case ht_put (resident c3) (page_no (deref w1 victim)) victim of
                                 None \<Rightarrow> None
                               | Some t' \<Rightarrow> Some (Some e, h\<lparr>cache := c3\<lparr>resident := t'\<rparr>\<rparr>, w1))
                       | (None, w1) \<Rightarrow>
                           Some (None, h\<lparr>cache := c2\<rparr>, cache_free_page victim w1))))"

partial_function (option) ensure_space_for_a1in_loop ::
  "vtpc_handle_t \<Rightarrow> world \<Rightarrow> (errno option \<times> vtpc_handle_t \<times> world) option" where
  "ensure_space_for_a1in_loop h w =
    (if a1in_sz (cache h) + am_sz (cache h) \<ge> capacity (cache h) then
       (case (if am_sz (cache h) > 0 then evict_from_am h w else evict_from_a1in h w) of
          None \<Rightarrow> None
        | Some (Some e, h1, w1) \<Rightarrow> Some (Some e, h1, w1)
        | Some (None, h1, w1) \<Rightarrow> ensure_space_for_a1in_loop h1 w1)
     else Some (None, h, w))"

declare ensure_space_for_a1in_loop.simps [code]

definition ensure_space_for_a1in ::
  "vtpc_handle_t \<Rightarrow> world \<Rightarrow> (errno option \<times> vtpc_handle_t \<times> world) option" where
  "ensure_space_for_a1in h w =
    (if a1in_sz (cache h) \<ge> kin (cache h) then evict_from_a1in h w
     else ensure_space_for_a1in_loop h w)"

partial_function (option) ensure_space_for_am_loop1 ::
  "vtpc_handle_t \<Rightarrow> world \<Rightarrow> (errno option \<times> vtpc_handle_t \<times> world) option" where
  "ensure_space_for_am_loop1 h w =
    (if am_sz (cache h) \<ge> am_cap (cache h) then
       (case evict_from_am h w of
          None \<Rightarrow> None
        | Some (Some e, h1, w1) \<Rightarrow> Some (Some e, h1, w1)
        | Some (None, h1, w1) \<Rightarrow> ensure_space_for_am_loop1 h1 w1)
     else Some (None, h, w))"

declare ensure_space_for_am_loop1.simps [code]

partial_function (option) ensure_space_for_am_loop2 ::
  "vtpc_handle_t \<Rightarrow> world \<Rightarrow> (errno option \<times> vtpc_handle_t \<times> world) option" where
  "ensure_space_for_am_loop2 h w =
    (if a1in_sz (cache h) + am_sz (cache h) \<ge> capacity (cache h) then
       (case (if a1in_sz (cache h) > 0 then evict_from_a1in h w else evict_from_am h w) of
          None \<Rightarrow> None
        | Some (Some e, h1, w1) \<Rightarrow> Some (Some e, h1, w1)
        | Some (None, h1, w1) \<Rightarrow> ensure_space_for_am_loop2 h1 w1)
     else Some (None, h, w))"

declare ensure_space_for_am_loop2.simps [code]

definition ensure_space_for_am ::
  "vtpc_handle_t \<Rightarrow> world \<Rightarrow> (errno option \<times> vtpc_handle_t \<times> world) option" where
  "ensure_space_for_am h w =
    (case ensure_space_for_am_loop1 h w of
       None \<Rightarrow> None
     | Some (Some e, h1, w1) \<Rightarrow> Some (Some e, h1, w1)
     | Some (None, h1, w1) \<Rightarrow> ensure_space_for_am_loop2 h1 w1)"

definition load_page :: "vtpc_handle_t \<Rightarrow> nat \<Rightarrow> world \<Rightarrow> (errno + nat) \<times> world" where
  "load_page h pn w =
    (let ps = page_size (cache h) in
     case alloc w of
       (p, w1) \<Rightarrow>
         if p = NULL then (Inl ENOMEM, w1)
         else
           (case alloc w1 of
              (buf, w2) \<Rightarrow>
                if buf = NULL then (Inl ENOMEM, w2)
                else
                  (case pread_fullpage h ps (pn * ps) w2 of
                     (Inl e, w3) \<Rightarrow> (Inl e, w3)
                   | (Inr bs, w3) \<Rightarrow>
                       (let r = length bs;
                            e = \<lparr>page_no = pn, data = bs @ replicate (ps - r) 0,
                                 valid_len = r, dirty = False, q = Q_NONE\<rparr>
                        in (Inr p, w3\<lparr>pages := (pages w3)(p \<mapsto> e)\<rparr>)))))"

definition set_q :: "nat \<Rightarrow> page_queue_t \<Rightarrow> world \<Rightarrow> world" where
  \<comment> \<open>\<open>p->q = v\<close>\<close>
  "set_q p v w = w\<lparr>pages := (pages w)(p \<mapsto> (deref w p)\<lparr>q := v\<rparr>)\<rparr>"

definition cache_get ::
  "vtpc_handle_t \<Rightarrow> nat \<Rightarrow> world \<Rightarrow> ((errno + nat) \<times> vtpc_handle_t \<times> world) option" where
  "cache_get h pn w =
    (let c = cache h in
     case ht_get (resident c) pn of
       None \<Rightarrow> None
     | Some p \<Rightarrow>
        if p \<noteq> NULL then
          (if q (deref w p) = Q_A1IN then
             (let c1 = c\<lparr>a1in := page_list_remove (a1in c) p, a1in_sz := a1in_sz c - 1\<rparr>
              in case ensure_space_for_am (h\<lparr>cache := c1\<rparr>) w of
                   None \<Rightarrow> None
                 | Some (Some e, h1, w1) \<Rightarrow> Some (Inl e, h1, w1)
                 | Some (None, h1, w1) \<Rightarrow>
                     (let c2 = cache h1
                      in Some (Inr p,
                               h1\<lparr>cache := c2\<lparr>am := page_list_push_front (am c2) p,
                                                am_sz := am_sz c2 + 1\<rparr>\<rparr>,
                               set_q p Q_AM w1)))
           else
             Some (Inr p,
                   h\<lparr>cache := c\<lparr>am := page_list_push_front (page_list_remove (am c) p) p\<rparr>\<rparr>,
                   w))
        else
          (case ht_get (ghosts c) pn of
             None \<Rightarrow> None
           | Some g \<Rightarrow>
              if g \<noteq> NULL then
                (let c1 = c\<lparr>a1out := ghost_list_remove (a1out c) g\<rparr>
                 in case ht_del (ghosts c1) pn of
                      None \<Rightarrow> None
                    | Some t \<Rightarrow>
                       (let c2 = c1\<lparr>ghosts := t, a1out_sz := a1out_sz c1 - 1\<rparr>;
                            w0 = cache_free_ghost g w
                        in case ensure_space_for_am (h\<lparr>cache := c2\<rparr>) w0 of
                             None \<Rightarrow> None
                           | Some (Some e, h1, w1) \<Rightarrow> Some (Inl e, h1, w1)
                           | Some (None, h1, w1) \<Rightarrow>
                              (case load_page h1 pn w1 of
                                 (Inl e, w2) \<Rightarrow> Some (Inl e, h1, w2)
                               | (Inr p', w2) \<Rightarrow>
                                  (let c3 = cache h1;
                                       c4 = c3\<lparr>am := page_list_push_front (am c3) p',
                                               am_sz := am_sz c3 + 1\<rparr>
                                   in case ht_put (resident c4) pn p' of
                                        None \<Rightarrow> None
                                      | Some t' \<Rightarrow>
                                          Some (Inr p', h1\<lparr>cache := c4\<lparr>resident := t'\<rparr>\<rparr>,
                                                set_q p' Q_AM w2)))))
              else
                (case ensure_space_for_a1in h w of
                   None \<Rightarrow> None
                 | Some (Some e, h1, w1) \<Rightarrow> Some (Inl e, h1, w1)
                 | Some (None, h1, w1) \<Rightarrow>
                    (case load_page h1 pn w1 of
                       (Inl e, w2) \<Rightarrow> Some (Inl e, h1, w2)
                     | (Inr p', w2) \<Rightarrow>
                        (let c3 = cache h1;
                             c4 = c3\<lparr>a1in := page_list_push_front (a1in c3) p',
                                     a1in_sz := a1in_sz c3 + 1\<rparr>
                         in case ht_put (resident c4) pn p' of
                              None \<Rightarrow> None
                            | Some t' \<Rightarrow>
                                Some (Inr p', h1\<lparr>cache := c4\<lparr>resident := t'\<rparr>\<rparr>,
                                      set_q p' Q_A1IN w2))))))"

subsection \<open>I/O path\<close>

text \<open>
  The \<open>whence\<close> values are those of \<open><unistd.h>\<close>.
\<close>

definition SEEK_SET :: int where "SEEK_SET = 0"
definition SEEK_CUR :: int where "SEEK_CUR = 1"
definition SEEK_END :: int where "SEEK_END = 2"

definition memset0 :: "byte list \<Rightarrow> nat \<Rightarrow> nat \<Rightarrow> byte list" where
  \<comment> \<open>\<open>memset(d + off, 0, n)\<close>\<close>
  "memset0 d off n = take off d @ replicate n 0 @ drop (off + n) d"

definition memcpy_to :: "byte list \<Rightarrow> nat \<Rightarrow> byte list \<Rightarrow> byte list" where
  \<comment> \<open>\<open>memcpy(d + off, src, |src|)\<close>\<close>
  "memcpy_to d off src = take off d @ src @ drop (off + length src) d"

text \<open>
  The handle table is not part of the state: a state holds one slot of it, and
  \<open>get_handle\<close> is the test of the slot's \<open>used\<close> flag. \<open>vtpc_read\<close> returns the
  \<open>ssize_t\<close> result and the bytes it has stored at the start of the caller's buffer.
\<close>

partial_function (option) vtpc_read_loop ::
  "vtpc_handle_t \<Rightarrow> nat \<Rightarrow> nat \<Rightarrow> byte list \<Rightarrow> world
     \<Rightarrow> ((errno + nat) \<times> byte list \<times> vtpc_handle_t \<times> world) option" where
  "vtpc_read_loop h count tot out w =
    (if tot < count then
       (let ps = page_size (cache h);
            cur = pos h;
            pn = nat (cur div int ps);
            in_page = nat (cur mod int ps);
            want = min_sz (count - tot) (ps - in_page)
        in case cache_get h pn w of
             None \<Rightarrow> None
           | Some (Inl e, h1, w1) \<Rightarrow>
               if tot > 0 then Some (Inr tot, out, h1, w1) else Some (Inl e, out, h1, w1)
           | Some (Inr p, h1, w1) \<Rightarrow>
               if in_page \<ge> valid_len (deref w1 p) then Some (Inr tot, out, h1, w1)
               else
                 (let avail = valid_len (deref w1 p) - in_page;
                      take_n = min_sz want avail;
                      out' = out @ take take_n (drop in_page (data (deref w1 p)));
                      tot' = tot + take_n;
                      h2 = h1\<lparr>pos := pos h1 + int take_n\<rparr>
                  in if take_n < want then Some (Inr tot', out', h2, w1)
                     else vtpc_read_loop h2 count tot' out' w1))
     else Some (Inr tot, out, h, w))"

declare vtpc_read_loop.simps [code]

definition vtpc_read ::
  "vtpc_handle_t \<Rightarrow> bool \<Rightarrow> nat \<Rightarrow> world
     \<Rightarrow> ((errno + nat) \<times> byte list \<times> vtpc_handle_t \<times> world) option" where
  \<comment> \<open>\<open>buf_null\<close> says that the buffer pointer is \<open>NULL\<close>\<close>
  "vtpc_read h buf_null count w =
    (if \<not> used h then Some (Inl EBADF, [], h, w)
     else if buf_null \<and> count > 0 then Some (Inl EINVAL, [], h, w)
     else if count = 0 then Some (Inr 0, [], h, w)
     else if flags h AND O_ACCMODE = O_WRONLY then Some (Inl EBADF, [], h, w)
     else vtpc_read_loop h count 0 [] w)"

partial_function (option) vtpc_write_loop ::
  "vtpc_handle_t \<Rightarrow> byte list \<Rightarrow> nat \<Rightarrow> nat \<Rightarrow> world
     \<Rightarrow> ((errno + nat) \<times> vtpc_handle_t \<times> world) option" where
  "vtpc_write_loop h buf count tot w =
    (if tot < count then
       (let ps = page_size (cache h);
            cur = pos h;
            pn = nat (cur div int ps);
            in_page = nat (cur mod int ps);
            chunk = min_sz (count - tot) (ps - in_page)
        in case cache_get h pn w of
             None \<Rightarrow> None
           | Some (Inl e, h1, w1) \<Rightarrow>
               if tot > 0 then Some (Inr tot, h1, w1) else Some (Inl e, h1, w1)
           | Some (Inr p, h1, w1) \<Rightarrow>
               (let e0 = deref w1 p;
                    d1 = (if in_page > valid_len e0
                          then memset0 (data e0) (valid_len e0) (in_page - valid_len e0)
                          else data e0);
                    d2 = memcpy_to d1 in_page (take chunk (drop tot buf));
                    e1 = e0\<lparr>data := d2,
                            valid_len := max_sz (valid_len e0) (in_page + chunk),
                            dirty := True\<rparr>;
                    w2 = w1\<lparr>pages := (pages w1)(p \<mapsto> e1)\<rparr>;
                    tot' = tot + chunk;
                    h2 = h1\<lparr>pos := pos h1 + int chunk\<rparr>;
                    new_end = pos h2
                in if new_end > size_h h2 then
                     (let h3 = h2\<lparr>size_h := new_end\<rparr>
                      in case ftruncate w2 (flags h3) (size_h h3) of
                           (Some e, w3) \<Rightarrow>
                             if tot' > 0 then Some (Inr tot', h3, w3)
                             else Some (Inl e, h3, w3)
                         | (None, w3) \<Rightarrow> vtpc_write_loop h3 buf count tot' w3)
                   else vtpc_write_loop h2 buf count tot' w2))
     else Some (Inr tot, h, w))"

declare vtpc_write_loop.simps [code]

definition vtpc_write ::
  "vtpc_handle_t \<Rightarrow> byte list option \<Rightarrow> nat \<Rightarrow> world
     \<Rightarrow> ((errno + nat) \<times> vtpc_handle_t \<times> world) option" where
  \<comment> \<open>\<open>buf = None\<close> is the \<open>NULL\<close> pointer; otherwise the buffer holds \<open>count\<close> bytes\<close>
  "vtpc_write h buf count w =
    (if \<not> used h then Some (Inl EBADF, h, w)
     else if buf = None \<and> count > 0 then Some (Inl EINVAL, h, w)
     else if count = 0 then Some (Inr 0, h, w)
     else if flags h AND O_ACCMODE = O_RDONLY then Some (Inl EBADF, h, w)
     else
       (let h1 = (if flags h AND O_APPEND \<noteq> 0 then h\<lparr>pos := size_h h\<rparr> else h)
        in vtpc_write_loop h1 (case buf of Some b \<Rightarrow> b | None \<Rightarrow> []) count 0 w))"

definition off_t_add :: "int \<Rightarrow> int \<Rightarrow> int" where
  \<comment> \<open>\<open>a + b\<close> in the 64-bit signed \<open>off_t\<close>: the sum wraps around\<close>
  "off_t_add a b = sint (word_of_int a + word_of_int b :: 64 word)"

definition vtpc_lseek :: "vtpc_handle_t \<Rightarrow> int \<Rightarrow> int \<Rightarrow> (errno + int) \<times> vtpc_handle_t" where
  "vtpc_lseek h offset whence =
    (if \<not> used h then (Inl EBADF, h)
     else if whence \<noteq> SEEK_SET \<and> whence \<noteq> SEEK_CUR \<and> whence \<noteq> SEEK_END then (Inl EINVAL, h)
     else
       (let base = (if whence = SEEK_SET then 0 else if whence = SEEK_CUR then pos h
                    else size_h h);
            np = off_t_add base offset
        in if np < 0 then (Inl EINVAL, h) else (Inr np, h\<lparr>pos := np\<rparr>)))"

fun flush_list :: "vtpc_handle_t \<Rightarrow> nat list \<Rightarrow> world \<Rightarrow> errno option \<times> world" where
  \<comment> \<open>\<open>for (p = head; p; p = p->next) if (cache_flush_page(h, p) != 0) return -1;\<close>\<close>
  "flush_list h [] w = (None, w)"
| "flush_list h (p # l) w =
     (case cache_flush_page h p w of
        (Some e, w1) \<Rightarrow> (Some e, w1)
      | (None, w1) \<Rightarrow> flush_list h l w1)"

definition cache_flush_all :: "vtpc_handle_t \<Rightarrow> world \<Rightarrow> errno option \<times> world" where
  "cache_flush_all h w =
    (case flush_list h (a1in (cache h)) w of
       (Some e, w1) \<Rightarrow> (Some e, w1)
     | (None, w1) \<Rightarrow>
         (case flush_list h (am (cache h)) w1 of
            (Some e, w2) \<Rightarrow> (Some e, w2)
          | (None, w2) \<Rightarrow>
              (case fsync w2 of
                 (Some e, w3) \<Rightarrow> (Some e, w3)
               | (None, w3) \<Rightarrow> ftruncate w3 (flags h) (size_h h))))"

definition vtpc_fsync :: "vtpc_handle_t \<Rightarrow> world \<Rightarrow> errno option \<times> world" where
  "vtpc_fsync h w = (if \<not> used h then (Some EBADF, w) else cache_flush_all h w)"

definition handle_zero :: vtpc_handle_t where
  "handle_zero = \<lparr>used = False, flags = 0, direct = False, pos = 0, size_h = 0,
     cache = cache_zero\<rparr>"

definition vtpc_open ::
  "string option \<Rightarrow> int \<Rightarrow> nat \<Rightarrow> globals \<Rightarrow> world
     \<Rightarrow> ((errno + vtpc_handle_t) \<times> globals \<times> world) option" where
  \<comment> \<open>\<open>env\<close> is \<open>getenv("VTPC_CACHE_PAGES")\<close>, \<open>sys_ps\<close> is \<open>sysconf(_SC_PAGESIZE)\<close>,
      \<open>mode\<close> the open flags; the file that the OS opens is \<open>disk w\<close>. The first fault
      is that of \<open>open\<close> with \<open>O_DIRECT\<close>, the next that of the retry after \<open>EINVAL\<close>,
      then that of \<open>fstat\<close>.\<close>
  "vtpc_open env sys_ps mode g w =
    (let g1 = vtpc_init_once env g in
     case next_fault w of
       (fd1, w1) \<Rightarrow>
         (case (if fd1 = Some EINVAL then next_fault w1 else (fd1, w1)) of
            (Some e, w2) \<Rightarrow> Some (Inl e, g1, w2)
          | (None, w2) \<Rightarrow>
              (case next_fault w2 of
                 (Some e, w3) \<Rightarrow> Some (Inl e, g1, w3)
               | (None, w3) \<Rightarrow>
                   (let h = handle_zero\<lparr>used := True, flags := mode, direct := (fd1 = None),
                                        pos := 0, size_h := int (length (disk w3))\<rparr>
                    in case cache_init (g_cfg_cache_pages g1) (vtpc_page_size sys_ps) w3 of
                         None \<Rightarrow> None
                       | Some (Inl e, w4) \<Rightarrow> Some (Inl e, g1, w4)
                       | Some (Inr c, w4) \<Rightarrow> Some (Inr (h\<lparr>cache := c\<rparr>), g1, w4)))))"

subsection \<open>Sequences of operations on one handle\<close>

text \<open>
  \<open>Inject fs\<close> is a step of the environment, not of the library: from now on the
  fallible calls take their outcomes from \<open>fs\<close>.
\<close>

datatype op =
    Read bool nat
  | Write "byte list option" nat
  | Lseek int int
  | Fsync
  | Inject "errno option list"

fun step :: "op \<Rightarrow> vtpc_handle_t \<Rightarrow> world \<Rightarrow> (vtpc_handle_t \<times> world) option" where
  "step (Read buf_null count) h w =
     (case vtpc_read h buf_null count w of None \<Rightarrow> None | Some (r, out, h1, w1) \<Rightarrow> Some (h1, w1))"
| "step (Write buf count) h w =
     (case vtpc_write h buf count w of None \<Rightarrow> None | Some (r, h1, w1) \<Rightarrow> Some (h1, w1))"
| "step (Lseek offset whence) h w = Some (snd (vtpc_lseek h offset whence), w)"
| "step Fsync h w = Some (h, snd (vtpc_fsync h w))"
| "step (Inject fs) h w = Some (h, w\<lparr>faults := fs\<rparr>)"

fun run :: "op list \<Rightarrow> vtpc_handle_t \<Rightarrow> world \<Rightarrow> (vtpc_handle_t \<times> world) option" where
  "run [] h w = Some (h, w)"
| "run (x # xs) h w = (case step x h w of None \<Rightarrow> None | Some (h1, w1) \<Rightarrow> run xs h1 w1)"

definition world_init :: "byte list \<Rightarrow> errno option list \<Rightarrow> world" where
  \<comment> \<open>a process that has allocated nothing yet, a file and a script of faults\<close>
  "world_init d fs = \<lparr>disk = d, faults = fs, pages = Map.empty, ghost_mem = Map.empty,
     next_addr = 1\<rparr>"

inductive reachable :: "vtpc_handle_t \<Rightarrow> world \<Rightarrow> bool" where
  r_open: "vtpc_open env sys_ps mode g (world_init d fs) = Some (Inr h, g', w) \<Longrightarrow> reachable h w"
| r_step: "reachable h w \<Longrightarrow> step x h w = Some (h', w') \<Longrightarrow> reachable h' w'"

definition session ::
  "string option \<Rightarrow> int \<Rightarrow> nat \<Rightarrow> byte list \<Rightarrow> op list \<Rightarrow> (vtpc_handle_t \<times> world) option" where
  \<comment> \<open>open the file \<open>d\<close> in a fresh process and run the operations\<close>
  "session env sys_ps mode d ops =
    (case vtpc_open env sys_ps mode globals_zero (world_init d []) of
       Some (Inr h, g, w) \<Rightarrow> run ops h w
     | _ \<Rightarrow> None)"

definition opened_handle ::
  "((errno + vtpc_handle_t) \<times> globals \<times> world) option \<Rightarrow> vtpc_handle_t" where
  "opened_handle r = (case r of Some (Inr h, g, w) \<Rightarrow> h | _ \<Rightarrow> handle_zero)"

definition opened_world :: "((errno + vtpc_handle_t) \<times> globals \<times> world) option \<Rightarrow> world" where
  "opened_world r = (case r of Some (Inr h, g, w) \<Rightarrow> w | _ \<Rightarrow> world_init [] [])"

subsection \<open>Observations of a cache state\<close>

definition a1in_pages :: "vtpc_handle_t \<Rightarrow> world \<Rightarrow> nat list" where
  \<comment> \<open>the page numbers on A1in, head first\<close>
  "a1in_pages h w = map (\<lambda>p. page_no (deref w p)) (a1in (cache h))"

definition am_pages :: "vtpc_handle_t \<Rightarrow> world \<Rightarrow> nat list" where
  "am_pages h w = map (\<lambda>p. page_no (deref w p)) (am (cache h))"

definition a1out_pages :: "vtpc_handle_t \<Rightarrow> world \<Rightarrow> nat list" where
  "a1out_pages h w = map (\<lambda>g. the (ghost_mem w g)) (a1out (cache h))"

definition obs ::
  "(vtpc_handle_t \<Rightarrow> world \<Rightarrow> 'a) \<Rightarrow> (vtpc_handle_t \<times> world) option \<Rightarrow> 'a option" where
  "obs f r = (case r of None \<Rightarrow> None | Some (h, w) \<Rightarrow> Some (f h w))"

definition sizes :: "vtpc_handle_t \<Rightarrow> world \<Rightarrow> nat \<times> nat \<times> nat" where
  "sizes h w = (unat (a1in_sz (cache h)), unat (am_sz (cache h)), unat (a1out_sz (cache h)))"

definition bounds_ok :: "vtpc_handle_t \<Rightarrow> world \<Rightarrow> bool" where
  "bounds_ok h w =
    (a1in_sz (cache h) \<le> kin (cache h) \<and> am_sz (cache h) \<le> am_cap (cache h) \<and>
     a1in_sz (cache h) + am_sz (cache h) \<le> capacity (cache h) \<and>
     a1out_sz (cache h) \<le> kout (cache h))"

definition in_resident_index :: "nat \<Rightarrow> vtpc_handle_t \<Rightarrow> world \<Rightarrow> bool" where
  "in_resident_index k h w =
    (case ht_get (resident (cache h)) k of Some p \<Rightarrow> p \<noteq> NULL | None \<Rightarrow> False)"

definition on_one_list :: "nat \<Rightarrow> vtpc_handle_t \<Rightarrow> world \<Rightarrow> bool" where
  \<comment> \<open>page \<open>k\<close> is on exactly one of A1in and Am, once, with the tag of that list\<close>
  "on_one_list k h w =
    (let l1 = filter (\<lambda>p. page_no (deref w p) = k) (a1in (cache h));
         l2 = filter (\<lambda>p. page_no (deref w p) = k) (am (cache h))
     in (length l1 = 1 \<and> l2 = [] \<and> q (deref w (hd l1)) = Q_A1IN) \<or>
        (l1 = [] \<and> length l2 = 1 \<and> q (deref w (hd l2)) = Q_AM))"

definition cursor :: "vtpc_handle_t \<Rightarrow> world \<Rightarrow> int \<times> int" where
  "cursor h w = (pos h, size_h h)"

definition read_result ::
  "(vtpc_handle_t \<times> world) option \<Rightarrow> bool \<Rightarrow> nat \<Rightarrow> ((errno + nat) \<times> byte list) option" where
  "read_result r buf_null count =
    (case r of
       None \<Rightarrow> None
     | Some (h, w) \<Rightarrow>
        (case vtpc_read h buf_null count w of
           None \<Rightarrow> None
         | Some (res, out, h', w') \<Rightarrow> Some (res, out)))"

definition write_result ::
  "(vtpc_handle_t \<times> world) option \<Rightarrow> byte list option \<Rightarrow> nat \<Rightarrow> (errno + nat) option" where
  "write_result r buf count =
    (case r of
       None \<Rightarrow> None
     | Some (h, w) \<Rightarrow>
        (case vtpc_write h buf count w of
           None \<Rightarrow> None
         | Some (res, h', w') \<Rightarrow> Some res))"

text \<open>
  A scenario prefix for \<open>VTPC_CACHE_PAGES=4\<close>: page 0 is written and promoted to Am,
  pages 1 and 2 are read twice (Am is then full), page 3 is read once (it is on A1in).
\<close>

definition fill_am :: "op list" where
  "fill_am =
    [Write (Some [0x42]) 1, Lseek 0 SEEK_SET, Read False 1,
     Lseek 4096 SEEK_SET, Read False 1, Lseek 4096 SEEK_SET, Read False 1,
     Lseek 8192 SEEK_SET, Read False 1, Lseek 8192 SEEK_SET, Read False 1,
     Lseek 12288 SEEK_SET, Read False 1]"

subsection \<open>The numeric prefix of a string, in the words of the C standard\<close>

definition dec_value :: "string \<Rightarrow> int" where
  "dec_value ds = foldl (\<lambda>a c. a * 10 + (of_char c - 48)) 0 ds"

definition numeric_prefix :: "string \<Rightarrow> int option" where
  \<comment> \<open>the number that a string starts with: white space, an optional sign, the longest
      run of decimal digits; \<open>None\<close> when there is no digit\<close>
  "numeric_prefix s =
    (let s1 = dropWhile isspace_c s;
         neg = (s1 \<noteq> [] \<and> hd s1 = CHR ''-'');
         s2 = (if s1 \<noteq> [] \<and> (hd s1 = CHR ''-'' \<or> hd s1 = CHR ''+'') then tl s1 else s1);
         ds = takeWhile isdigit_c s2
     in if ds = [] then None else Some ((if neg then - 1 else 1) * dec_value ds))"

section \<open>Invariants\<close>

text \<open>
  The definitions of this section are not functions of the library: they state what the
  theorems below prove about it.
\<close>

subsection \<open>The hash index as a finite map\<close>

text \<open>
  \<open>probe t k n\<close> is the \<open>n\<close>-th slot that a search for \<open>k\<close> visits, \<open>occ t j k\<close> says that
  slot \<open>j\<close> is occupied by \<open>k\<close>, and \<open>ht_ok\<close> that every occupied slot is found by the
  search for its key: the keys are unique and no empty slot lies before the key on its
  probe sequence. \<open>lookup t k a\<close> is the map that the table stands for.
\<close>

primrec probe :: "ht_t \<Rightarrow> nat \<Rightarrow> nat \<Rightarrow> nat" where
  "probe t key 0 = ht_slot t key"
| "probe t key (Suc n) = (probe t key n + 1) AND (cap t - 1)"

definition occ :: "ht_t \<Rightarrow> nat \<Rightarrow> nat \<Rightarrow> bool" where
  "occ t j k = (j < cap t \<and> state t ! j = 1 \<and> keys t ! j = k)"

definition ht_ok :: "ht_t \<Rightarrow> bool" where
  "ht_ok t =
    (0 < cap t \<and> length (keys t) = cap t \<and> length (vals t) = cap t \<and>
     length (state t) = cap t \<and>
     (\<forall>i j k. occ t i k \<longrightarrow> occ t j k \<longrightarrow> i = j) \<and>
     (\<forall>j k. occ t j k \<longrightarrow> (\<exists>n. probe t k n = j \<and> (\<forall>m<n. state t ! probe t k m \<noteq> 0))))"

definition set_slot :: "ht_t \<Rightarrow> nat \<Rightarrow> nat \<Rightarrow> nat \<Rightarrow> ht_t" where
  "set_slot t j k v = t\<lparr>state := (state t)[j := 1], keys := (keys t)[j := k], vals := (vals t)[j := v]\<rparr>"

definition tomb :: "ht_t \<Rightarrow> nat \<Rightarrow> ht_t" where
  "tomb t j = t\<lparr>state := (state t)[j := 2], vals := (vals t)[j := NULL]\<rparr>"

definition put_res :: "ht_t \<Rightarrow> nat \<Rightarrow> nat \<Rightarrow> ht_t \<Rightarrow> bool" where
  "put_res t k v t' =
    (\<exists>j n. probe t k n = j \<and> (\<forall>m<n. state t ! probe t k m \<noteq> 0) \<and> t' = set_slot t j k v \<and>
       (occ t j k \<or> (state t ! j \<noteq> 1 \<and> (\<forall>i. \<not> occ t i k))))"

definition put_pre :: "ht_t \<Rightarrow> nat \<Rightarrow> nat \<Rightarrow> nat option \<Rightarrow> bool" where
  "put_pre t k i ft =
    (\<exists>n. i = probe t k n \<and>
       (\<forall>m<n. state t ! probe t k m \<noteq> 0 \<and> \<not> occ t (probe t k m) k) \<and>
       (case ft of None \<Rightarrow> True
        | Some f \<Rightarrow> \<exists>m<n. probe t k m = f \<and> state t ! f = 2))"

definition lookup :: "ht_t \<Rightarrow> nat \<Rightarrow> nat \<Rightarrow> bool" where
  "lookup t k a = (\<exists>j. occ t j k \<and> vals t ! j = a)"

subsection \<open>Well-formed cache states\<close>

text \<open>
  \<open>safe h w\<close>: the resident index is a well-formed table whose values are live page
  entries filed under their own page number; no entry is on a list twice or on both
  lists, and a list member carries the tag of its list; every live entry lies below the
  allocation mark, has a buffer of one page with \<open>valid_len\<close> inside it and zeros after
  \<open>valid_len\<close>, and is in the index. An entry that is in the index but on no list is
  allowed (\<open>cache_get\<close> leaves one behind when a promotion fails), and the size counters
  are not constrained. \<open>evicted\<close> describes what one call of \<open>evict_from_a1in\<close> or
  \<open>evict_from_am\<close> does to such a state, \<open>frame\<close> what the loops that make room leave
  untouched.
\<close>

definition ghost_step :: "vtpc_cache_t \<Rightarrow> vtpc_cache_t \<Rightarrow> bool" where
  "ghost_step c c' = (c' = c\<lparr>ghosts := ghosts c', a1out := a1out c', a1out_sz := a1out_sz c'\<rparr>)"

definition env_step :: "world \<Rightarrow> world \<Rightarrow> bool" where
  "env_step w w' = (pages w' = pages w \<and> disk w' = disk w \<and> next_addr w \<le> next_addr w')"

definition entry_ok :: "nat \<Rightarrow> page_entry \<Rightarrow> bool" where
  "entry_ok ps e =
    (length (data e) = ps \<and> valid_len e \<le> ps \<and>
     (\<forall>i. valid_len e \<le> i \<and> i < ps \<longrightarrow> data e ! i = 0))"

definition safe :: "vtpc_handle_t \<Rightarrow> world \<Rightarrow> bool" where
  "safe h w =
    (ht_ok (resident (cache h)) \<and>
     (\<forall>k a. lookup (resident (cache h)) k a \<longrightarrow>
        (\<exists>e. pages w a = Some e \<and> page_no e = k \<and> q e \<noteq> Q_NONE)) \<and>
     distinct (a1in (cache h) @ am (cache h)) \<and>
     (\<forall>a \<in> set (a1in (cache h)). \<exists>e. pages w a = Some e \<and> q e = Q_A1IN) \<and>
     (\<forall>a \<in> set (am (cache h)). \<exists>e. pages w a = Some e \<and> q e = Q_AM) \<and>
     (\<forall>a e. pages w a = Some e \<longrightarrow>
        0 < a \<and> a < next_addr w \<and> entry_ok (page_size (cache h)) e \<and>
        lookup (resident (cache h)) (page_no e) a) \<and>
     0 < page_size (cache h) \<and> 0 \<le> pos h \<and> 0 \<le> size_h h)"

definition static_eq :: "vtpc_handle_t \<Rightarrow> vtpc_handle_t \<Rightarrow> bool" where
  "static_eq h h' =
    (used h' = used h \<and> flags h' = flags h \<and> direct h' = direct h \<and> pos h' = pos h \<and>
     size_h h' = size_h h \<and> page_size (cache h') = page_size (cache h) \<and>
     capacity (cache h') = capacity (cache h) \<and> kin (cache h') = kin (cache h) \<and>
     kout (cache h') = kout (cache h) \<and> am_cap (cache h') = am_cap (cache h))"

definition flush_disk :: "vtpc_handle_t \<Rightarrow> page_entry \<Rightarrow> byte list \<Rightarrow> byte list" where
  "flush_disk h e d =
    (if flags h AND O_APPEND \<noteq> 0 then d @ take (page_size (cache h)) (data e)
     else disk_pwrite d (take (page_size (cache h)) (data e)) (page_no e * page_size (cache h)))"

definition evicted ::
  "vtpc_handle_t \<Rightarrow> world \<Rightarrow> errno option \<Rightarrow> vtpc_handle_t \<Rightarrow> world \<Rightarrow> bool" where
  "evicted h w rc h' w' =
    (\<exists>v e fl w1.
       v \<in> set (a1in (cache h) @ am (cache h)) \<and> pages w v = Some e \<and>
       cache_flush_page h v w = (fl, w1) \<and> static_eq h h' \<and> ht_ok (resident (cache h')) \<and>
       ((fl = None \<and> rc = None \<and>
         a1in (cache h') = remove1 v (a1in (cache h)) \<and> am (cache h') = remove1 v (am (cache h)) \<and>
         (\<forall>k a. lookup (resident (cache h')) k a \<longleftrightarrow>
                k \<noteq> page_no e \<and> lookup (resident (cache h)) k a) \<and>
         pages w' = (pages w1)(v := None) \<and> disk w' = disk w1 \<and> next_addr w1 \<le> next_addr w') \<or>
        (\<exists>er. fl = Some er \<and> rc = Some er \<and>
         (\<forall>k a. lookup (resident (cache h')) k a \<longleftrightarrow> lookup (resident (cache h)) k a) \<and>
         set (a1in (cache h')) = set (a1in (cache h)) \<and> set (am (cache h')) = set (am (cache h)) \<and>
         distinct (a1in (cache h') @ am (cache h')) \<and> w' = w1)))"

definition frame :: "vtpc_handle_t \<Rightarrow> world \<Rightarrow> vtpc_handle_t \<Rightarrow> world \<Rightarrow> bool" where
  "frame h w h' w' =
    (static_eq h h' \<and>
     set (a1in (cache h') @ am (cache h')) \<subseteq> set (a1in (cache h) @ am (cache h)) \<and>
     next_addr w \<le> next_addr w' \<and>
     (\<forall>a. a \<notin> set (a1in (cache h) @ am (cache h)) \<longrightarrow>
        pages w' a = pages w a \<and>
        (\<forall>k. lookup (resident (cache h)) k a \<longrightarrow> lookup (resident (cache h')) k a)) \<and>
     (\<forall>k a. lookup (resident (cache h')) k a \<longrightarrow> lookup (resident (cache h)) k a))"

definition loaded :: "nat \<Rightarrow> nat \<Rightarrow> byte list \<Rightarrow> page_entry" where
  "loaded ps pn d =
    \<lparr>page_no = pn,
     data = take ps (drop (pn * ps) d) @ replicate (ps - length (take ps (drop (pn * ps) d))) 0,
     valid_len = length (take ps (drop (pn * ps) d)), dirty = False, q = Q_NONE\<rparr>"

definition fresh_table :: "nat \<Rightarrow> ht_t" where
  "fresh_table n = \<lparr>cap = n, keys = replicate n 0, vals = replicate n NULL, state = replicate n 0\<rparr>"

definition valid_len_ok :: "vtpc_handle_t \<Rightarrow> world \<Rightarrow> nat \<Rightarrow> bool" where
  "valid_len_ok h w p =
    (\<exists>e. pages w p = Some e \<and> length (data e) = page_size (cache h) \<and>
       valid_len e \<le> page_size (cache h) \<and>
       (\<forall>i. valid_len e \<le> i \<and> i < page_size (cache h) \<longrightarrow> data e ! i = 0))"

subsection \<open>Invariants of the pages and the file\<close>

text \<open>
  A \<open>core_inv\<close> is a property of the page size, the file size that the handle records,
  the page entries and the file. It is \<open>stable\<close> when it survives a writeback, the
  release of a clean entry, the loading of a page that is not resident, a change of a
  list tag and a truncation of the file to the recorded size; \<open>wstep\<close> is the same for
  the copy of one chunk by \<open>vtpc_write\<close>, for a family of properties indexed by the number
  of bytes written so far. \<open>reads J F\<close> says that under \<open>J\<close> the valid bytes of the entries
  are those of the content \<open>F\<close>.
\<close>

type_synonym core_inv = "nat \<Rightarrow> nat \<Rightarrow> int \<Rightarrow> (nat \<rightharpoonup> page_entry) \<Rightarrow> byte list \<Rightarrow> bool"

definition holds :: "core_inv \<Rightarrow> vtpc_handle_t \<Rightarrow> world \<Rightarrow> bool" where
  "holds J h w = J (flags h) (page_size (cache h)) (size_h h) (pages w) (disk w)"

definition stable :: "core_inv \<Rightarrow> bool" where
  "stable J =
    ((\<forall>h w v e fl w1. safe h w \<and> holds J h w \<and> pages w v = Some e \<and>
        cache_flush_page h v w = (fl, w1) \<longrightarrow> holds J h w1) \<and>
     (\<forall>fl ps sz pg d v e. J fl ps sz pg d \<and> pg v = Some e \<and> \<not> dirty e \<longrightarrow> J fl ps sz (pg(v := None)) d) \<and>
     (\<forall>fl ps sz pg d p pn x. J fl ps sz pg d \<and> pg p = None \<and>
        (\<forall>a e. pg a = Some e \<longrightarrow> page_no e \<noteq> pn) \<longrightarrow>
        J fl ps sz (pg(p \<mapsto> (loaded ps pn d)\<lparr>q := x\<rparr>)) d) \<and>
     (\<forall>fl ps sz pg d p e x. J fl ps sz pg d \<and> pg p = Some e \<longrightarrow> J fl ps sz (pg(p \<mapsto> e\<lparr>q := x\<rparr>)) d) \<and>
     (\<forall>fl ps sz pg d. J fl ps sz pg d \<and> 0 \<le> sz \<longrightarrow> J fl ps sz pg (disk_truncate d (nat sz))))"

definition reads :: "core_inv \<Rightarrow> (nat \<Rightarrow> byte) \<Rightarrow> bool" where
  "reads J F =
    (\<forall>fl ps sz pg d p e i. J fl ps sz pg d \<and> pg p = Some e \<and> i < valid_len e \<and> i < ps \<longrightarrow>
       data e ! i = F (page_no e * ps + i))"

definition read_post ::
  "core_inv \<Rightarrow> vtpc_handle_t \<Rightarrow> nat \<Rightarrow> nat \<Rightarrow> byte list \<Rightarrow>
   (errno + nat) \<times> byte list \<times> vtpc_handle_t \<times> world \<Rightarrow> bool" where
  "read_post J h count tot out r =
    (case r of (res, out', h', w') \<Rightarrow>
       safe h' w' \<and> holds J h' w' \<and> static_eq h (h'\<lparr>pos := pos h\<rparr>) \<and> pos h \<le> pos h' \<and>
       length out' = length out + nat (pos h' - pos h) \<and> take (length out) out' = out \<and>
       (\<forall>F. reads J F \<longrightarrow> out' = out @ map F [nat (pos h) ..< nat (pos h')]) \<and>
       (case res of Inr n \<Rightarrow> int n = int tot + (pos h' - pos h) \<and> n \<le> max tot count
        | Inl e \<Rightarrow> pos h' = pos h \<and> tot = 0))"

definition write_entry :: "page_entry \<Rightarrow> nat \<Rightarrow> nat \<Rightarrow> byte list \<Rightarrow> page_entry" where
  "write_entry e0 in_page chunk src =
    e0\<lparr>data := memcpy_to (if in_page > valid_len e0
                           then memset0 (data e0) (valid_len e0) (in_page - valid_len e0)
                           else data e0) in_page src,
       valid_len := max_sz (valid_len e0) (in_page + chunk), dirty := True\<rparr>"

definition wstep :: "(nat \<Rightarrow> core_inv) \<Rightarrow> int \<Rightarrow> byte list \<Rightarrow> nat \<Rightarrow> bool" where
  "wstep K c0 buf count =
    (\<forall>tot fl ps sz pg d p e0.
       K tot fl ps sz pg d \<and> 0 < ps \<and> 0 \<le> c0 + int tot \<and> 0 \<le> sz \<and> tot < count \<and>
       pg p = Some e0 \<and> page_no e0 = nat ((c0 + int tot) div int ps) \<and> entry_ok ps e0 \<and>
       (\<forall>a e. pg a = Some e \<and> page_no e = page_no e0 \<longrightarrow> a = p) \<longrightarrow>
       (let in_page = nat ((c0 + int tot) mod int ps);
            chunk = min_sz (count - tot) (ps - in_page)
        in K (tot + chunk) fl ps (max sz (c0 + int tot + int chunk))
             (pg(p \<mapsto> write_entry e0 in_page chunk (take chunk (drop tot buf)))) d))"

definition write_post ::
  "(nat \<Rightarrow> core_inv) \<Rightarrow> vtpc_handle_t \<Rightarrow> nat \<Rightarrow> nat \<Rightarrow>
   (errno + nat) \<times> vtpc_handle_t \<times> world \<Rightarrow> bool" where
  "write_post K h count tot r =
    (case r of (res, h', w') \<Rightarrow>
       safe h' w' \<and> static_eq h (h'\<lparr>pos := pos h, size_h := size_h h\<rparr>) \<and>
       size_h h \<le> size_h h' \<and>
       (\<exists>tot'. holds (K tot') h' w' \<and> pos h' = pos h + (int tot' - int tot) \<and> tot \<le> tot' \<and>
          tot' \<le> max tot count \<and> size_h h' = max (size_h h) (if tot' = tot then size_h h else pos h') \<and>
          (res = Inr tot' \<or> (\<exists>e. res = Inl e) \<and> tot' = 0)))"

section \<open>Evaluation\<close>

lemmas list_prims =
  page_list_remove_def page_list_push_front_def page_list_pop_back_def
  ghost_list_remove_def ghost_list_push_front_def ghost_list_pop_back_def
lemmas os_defs = next_fault_def alloc_def pread_def pwrite_def ftruncate_def fsync_def
  fd_readable_def fd_writable_def disk_pwrite_def disk_truncate_def
  drop_os_cache_def pread_fullpage_def pwrite_fullpage_def
lemmas ht_defs = ht_get_def ht_put_def ht_del_def ht_slot_def hash_u64_def
  ht_get_loop.simps ht_put_loop.simps ht_del_loop.simps ht_init_def ht_zero_def

lemma hash_vals:
  "hash_u64 0 = 16294208416658607535" "hash_u64 1 = 10451216379200822465"
  "hash_u64 2 = 10905525725756348110" "hash_u64 3 = 2092789425003139053"
  "hash_u64 4 = 7958955049054603978"
  by (simp_all add: hash_u64_def Let_def)

lemmas ht_ev = ht_get_def ht_put_def ht_del_def ht_slot_def
  ht_get_loop.simps ht_put_loop.simps ht_del_loop.simps hash_vals
lemmas cache_defs = cache_free_page_def cache_free_ghost_def deref_def cache_flush_page_def
  cache_trim_a1out.simps cache_add_ghost_def evict_from_a1in_def evict_from_am_def
  ensure_space_for_a1in_loop.simps ensure_space_for_a1in_def
  ensure_space_for_am_loop1.simps ensure_space_for_am_loop2.simps ensure_space_for_am_def
  load_page_def set_q_def cache_get_def list_prims
lemmas io_defs = vtpc_read_loop.simps vtpc_read_def vtpc_write_loop.simps vtpc_write_def
  vtpc_lseek_def off_t_add_def cache_flush_all_def vtpc_fsync_def memset0_def memcpy_to_def
  min_sz_def max_sz_def O_RDONLY_def O_WRONLY_def O_RDWR_def O_ACCMODE_def O_APPEND_def
  SEEK_SET_def SEEK_CUR_def SEEK_END_def
lemmas init_defs = vtpc_open_def vtpc_init_once_def strtol10_def isspace_c_def isdigit_c_def
  LONG_MAX_def LONG_MIN_def globals_zero_def cache_init_def cache_zero_def next_pow2_def
  next_pow2_loop.simps vtpc_page_size_def handle_zero_def world_init_def
  VTPC_DEFAULT_CACHE_PAGES_def
lemmas obs_defs = session_def obs_def a1in_pages_def am_pages_def a1out_pages_def
lemmas word_cmp = word_le_nat_alt word_less_nat_alt

lemma unat_m1: "unat (- 1 :: 64 word) = 18446744073709551615"
  by (simp add: unsigned_minus_1_eq_mask mask_eq_exp_minus_1)

lemmas scen_defs = obs_def a1out_pages_def a1in_pages_def am_pages_def sizes_def bounds_ok_def
  in_resident_index_def on_one_list_def unat_m1 cursor_def read_result_def write_result_def
  fill_am_def io_defs cache_defs os_defs ht_ev Let_def word_cmp

text \<open>
  With these congruence rules the simplifier evaluates a closed term call by value: the
  scrutinee of a \<open>case\<close>, the condition of an \<open>if\<close> and the bound term of a \<open>let\<close>
  first, the chosen branch after that.
\<close>

lemmas ev_congs = let_weak_cong if_weak_cong option.case_cong_weak sum.case_cong_weak
  prod.case_cong_weak list.case_cong_weak

section \<open>Configuration\<close>

lemma strtol_digits_eq:
  "strtol_digits acc s =
     (foldl (\<lambda>a c. a * 10 + (of_char c - 48)) acc (takeWhile isdigit_c s), dropWhile isdigit_c s)"
  by (induction s arbitrary: acc) auto

lemma length_dropWhile_less: "s \<noteq> [] \<Longrightarrow> P (hd s) \<Longrightarrow> length (dropWhile P s) < length s"
  by (cases s) (auto simp: le_imp_less_Suc length_dropWhile_le)

lemma strtol10_alt:
  "strtol10 s =
    (let s1 = dropWhile isspace_c s;
         neg = (s1 \<noteq> [] \<and> hd s1 = CHR ''-'');
         s2 = (if s1 \<noteq> [] \<and> (hd s1 = CHR ''-'' \<or> hd s1 = CHR ''+'') then tl s1 else s1);
         ds = takeWhile isdigit_c s2
     in if ds = [] then (0, 0)
        else (max LONG_MIN (min LONG_MAX ((if neg then - 1 else 1) * dec_value ds)),
              length s - length (dropWhile isdigit_c s2)))"
proof (cases "dropWhile isspace_c s")
  case Nil
  show ?thesis unfolding strtol10_def Let_def Nil by simp
next
  case (Cons c cs)
  show ?thesis
  proof (cases "c = CHR ''-'' \<or> c = CHR ''+''")
    case True
    then show ?thesis
      unfolding strtol10_def Let_def Cons
      by (cases cs) (auto simp: strtol_digits_eq dec_value_def)
  next
    case False
    then show ?thesis
      unfolding strtol10_def Let_def Cons
      by (auto simp: strtol_digits_eq dec_value_def)
  qed
qed

lemma strtol10_none:
  "numeric_prefix s = None \<Longrightarrow> snd (strtol10 s) = 0"
  by (auto simp: strtol10_alt numeric_prefix_def Let_def split: if_splits)

lemma strtol10_some:
  assumes "numeric_prefix s = Some v"
  shows "snd (strtol10 s) \<noteq> 0 \<and> fst (strtol10 s) = max LONG_MIN (min LONG_MAX v)"
proof -
  define s1 where "s1 = dropWhile isspace_c s"
  define s2 where
    "s2 = (if s1 \<noteq> [] \<and> (hd s1 = CHR ''-'' \<or> hd s1 = CHR ''+'') then tl s1 else s1)"
  have l1: "length s1 \<le> length s" by (simp add: s1_def length_dropWhile_le)
  have l2: "length s2 \<le> length s1" by (simp add: s2_def)
  from assms have ne: "takeWhile isdigit_c s2 \<noteq> []"
    by (auto simp: numeric_prefix_def Let_def s1_def s2_def split: if_splits)
  then have "s2 \<noteq> []" "isdigit_c (hd s2)"
    by (cases s2; auto split: if_splits)+
  then have "length (dropWhile isdigit_c s2) < length s2"
    by (rule length_dropWhile_less)
  with l1 l2 have e: "length s - length (dropWhile isdigit_c s2) \<noteq> 0" by linarith
  from assms have v:
    "v = (if (s1 \<noteq> [] \<and> hd s1 = CHR ''-'') then - 1 else 1) * dec_value (takeWhile isdigit_c s2)"
    by (auto simp: numeric_prefix_def Let_def s1_def s2_def split: if_splits)
  show ?thesis
    unfolding strtol10_alt Let_def s1_def [symmetric] s2_def [symmetric]
    using e v ne by simp
qed

lemma word_of_int_cfg_nonzero: "0 < v \<Longrightarrow> v < 10000000 \<Longrightarrow> (word_of_int v :: 64 word) \<noteq> 0"
  by (auto simp: word_of_int_eq_0_iff dest: zdvd_imp_le)

text \<open>
  C8 (as the code has it). The capacity configured at first use is the numeric prefix of
  \<open>VTPC_CACHE_PAGES\<close> when that prefix is strictly between 0 and 10,000,000, and the
  default 256 otherwise (variable unset, empty, no numeric prefix, prefix out of range).
  Characters after the digits, white space before them and a sign do not make the value
  fall back to the default.
\<close>

theorem C8_numeric_prefix_accepted:
  "g_cfg_cache_pages (vtpc_init_once env globals_zero) =
     (case env of
        None \<Rightarrow> VTPC_DEFAULT_CACHE_PAGES
      | Some s \<Rightarrow>
          (case numeric_prefix s of
             None \<Rightarrow> VTPC_DEFAULT_CACHE_PAGES
           | Some v \<Rightarrow> if 0 < v \<and> v < 10000000 then word_of_int v
                       else VTPC_DEFAULT_CACHE_PAGES))"
proof (cases env)
  case None
  then show ?thesis by (simp add: vtpc_init_once_def globals_zero_def)
next
  case (Some s)
  show ?thesis
  proof (cases "numeric_prefix s")
    case None
    have "numeric_prefix [] = None" by (simp add: numeric_prefix_def)
    with None Some strtol10_none[OF None] show ?thesis
      by (cases s) (auto simp: vtpc_init_once_def globals_zero_def Let_def split: prod.splits)
  next
    case (Some v)
    have ne: "s \<noteq> []" using Some by (auto simp: numeric_prefix_def)
    from strtol10_some[OF Some] obtain e where
      st: "strtol10 s = (max LONG_MIN (min LONG_MAX v), e)" and e: "e \<noteq> 0"
      by (cases "strtol10 s") auto
    have rng:
      "(0 < max LONG_MIN (min LONG_MAX v) \<and> max LONG_MIN (min LONG_MAX v) < 10 * 1000 * 1000)
        = (0 < v \<and> v < 10000000)"
      by (auto simp: LONG_MIN_def LONG_MAX_def)
    have same: "0 < v \<Longrightarrow> v < 10000000 \<Longrightarrow> max LONG_MIN (min LONG_MAX v) = v"
      by (auto simp: LONG_MIN_def LONG_MAX_def)
    show ?thesis
      using \<open>env = Some s\<close> Some ne st e rng same word_of_int_cfg_nonzero[of v]
      by (cases s) (auto simp: vtpc_init_once_def globals_zero_def Let_def)
  qed
qed

theorem C8_numeric_prefix_accepted_witness:
  "g_cfg_cache_pages (vtpc_init_once (Some '' +42 pages'') globals_zero) = 42"
  using C8_numeric_prefix_accepted [of "Some '' +42 pages''"]
  by (simp add: numeric_prefix_def dec_value_def isspace_c_def isdigit_c_def Let_def)

text \<open>
  C8 (as stated) fails: \<open>12abc\<close> is not a decimal number, and the capacity is 12, not 256.
\<close>

theorem C8_counterexample:
  "g_cfg_cache_pages (vtpc_init_once (Some ''12abc'') globals_zero) = 12 \<and>
   g_cfg_cache_pages (vtpc_init_once (Some ''12abc'') globals_zero) \<noteq> VTPC_DEFAULT_CACHE_PAGES"
  by (simp add: vtpc_init_once_def strtol10_def isspace_c_def isdigit_c_def
      LONG_MAX_def LONG_MIN_def globals_zero_def VTPC_DEFAULT_CACHE_PAGES_def Let_def)

lemma next_pow2_16: "next_pow2 16 = Some 16"
  by (simp add: next_pow2_def next_pow2_loop.simps word_cmp)

lemma next_pow2_8: "next_pow2 8 = Some 8"
  by (simp add: next_pow2_def next_pow2_loop.simps word_cmp)

lemma cfg_ge4:
  fixes cfg :: size_t
  assumes "\<not> cfg < 4"
  shows "\<not> cfg div 4 < 1" "\<not> cfg div 4 \<ge> cfg" "\<not> cfg - cfg div 4 < 1" "\<not> cfg div 2 < 1"
proof -
  from assms have u: "4 \<le> unat cfg" by (simp add: word_less_nat_alt)
  have d4: "unat (cfg div 4) = unat cfg div 4" by (simp add: unat_div)
  have d2: "unat (cfg div 2) = unat cfg div 2" by (simp add: unat_div)
  show "\<not> cfg div 4 < 1" using u d4 by (simp add: word_less_nat_alt)
  show "\<not> cfg div 4 \<ge> cfg" using u d4 by (simp add: word_le_nat_alt)
  have "cfg div 4 \<le> cfg" using d4 by (simp add: word_le_nat_alt)
  then have "unat (cfg - cfg div 4) = unat cfg - unat cfg div 4"
    using d4 by (simp add: unat_sub)
  then show "\<not> cfg - cfg div 4 < 1" using u by (simp add: word_less_nat_alt)
  show "\<not> cfg div 2 < 1" using u d2 by (simp add: word_less_nat_alt)
qed

lemma cache_init_small:
  assumes "cfg < 4"
  shows "cache_init cfg ps w =
    (case ht_init 16 w of
       (Inl e, w1) \<Rightarrow> Some (Inl e, w1)
     | (Inr r, w1) \<Rightarrow>
        (case ht_init 8 w1 of
           (Inl e, w2) \<Rightarrow> Some (Inl e, w2)
         | (Inr g, w2) \<Rightarrow>
            Some (Inr \<lparr>page_size = ps, capacity = 4, kin = 1, kout = 2, am_cap = 3,
              a1in_sz = 0, am_sz = 0, a1out_sz = 0, a1in = [], am = [], a1out = [],
              resident = r, ghosts = g\<rparr>, w2)))"
  using assms
  by (simp add: cache_init_def Let_def cache_zero_def next_pow2_16 next_pow2_8 word_cmp
      cong: ev_congs) (simp split: prod.splits sum.splits)

lemma cache_init_large:
  assumes "\<not> cfg < 4"
  shows "cache_init cfg ps w =
    (case next_pow2 (cfg * 4) of
       None \<Rightarrow> None
     | Some resident_cap \<Rightarrow>
        (case next_pow2 (cfg div 2 * 4) of
           None \<Rightarrow> None
         | Some ghosts_cap \<Rightarrow>
            (case ht_init (unat resident_cap) w of
               (Inl e, w1) \<Rightarrow> Some (Inl e, w1)
             | (Inr r, w1) \<Rightarrow>
                (case ht_init (unat ghosts_cap) w1 of
                   (Inl e, w2) \<Rightarrow> Some (Inl e, w2)
                 | (Inr g, w2) \<Rightarrow>
                    Some (Inr \<lparr>page_size = ps, capacity = cfg, kin = cfg div 4,
                      kout = cfg div 2, am_cap = cfg - cfg div 4,
                      a1in_sz = 0, am_sz = 0, a1out_sz = 0, a1in = [], am = [], a1out = [],
                      resident = r, ghosts = g\<rparr>, w2)))))"
  using assms cfg_ge4 [OF assms]
  by (simp add: cache_init_def Let_def cache_zero_def cong: ev_congs)
     (simp split: prod.splits sum.splits option.splits)

lemma next_pow2_loop_returns:
  assumes "x \<le> 2 ^ 63"
  shows "n \<le> 63 \<Longrightarrow> \<exists>r. next_pow2_loop (2 ^ (63 - n)) x = Some r"
proof (induction n)
  case 0
  from assms have "\<not> (2 ^ 63 :: size_t) < x" by (simp add: not_less)
  then show ?case by (subst next_pow2_loop.simps) simp
next
  case (Suc n)
  then have "n \<le> 63" by simp
  from Suc.IH [OF this] obtain r where r: "next_pow2_loop (2 ^ (63 - n)) x = Some r" by blast
  from Suc.prems have "63 - n = Suc (63 - Suc n)" by simp
  then have "push_bit 1 (2 ^ (63 - Suc n) :: size_t) = 2 ^ (63 - n)"
    by (simp add: push_bit_eq_mult)
  with r show ?case by (subst next_pow2_loop.simps) simp
qed

lemma next_pow2_returns: "x \<le> 2 ^ 63 \<Longrightarrow> \<exists>r. next_pow2 x = Some r"
  using next_pow2_loop_returns [of x 63] by (simp add: next_pow2_def)

lemma cfg_small_bounds:
  fixes cfg :: size_t
  assumes "cfg < 10000000"
  shows "cfg * 4 \<le> 2 ^ 63" "cfg div 2 * 4 \<le> 2 ^ 63"
proof -
  from assms have u: "unat cfg < 10000000" by (simp add: word_less_nat_alt)
  then have "unat (cfg * 4) = unat cfg * 4" by (simp add: unat_mult_lem [THEN iffD1])
  with u show "cfg * 4 \<le> 2 ^ 63" by (simp add: word_le_nat_alt)
  have d: "unat (cfg div 2) = unat cfg div 2" by (simp add: unat_div)
  with u have "unat (cfg div 2 * 4) = unat cfg div 2 * 4"
    by (simp add: unat_mult_lem [THEN iffD1])
  with u show "cfg div 2 * 4 \<le> 2 ^ 63" by (simp add: word_le_nat_alt)
qed

lemma ht_init_ok:
  "faults w = [] \<Longrightarrow> 0 < next_addr w \<Longrightarrow>
   \<exists>t w'. ht_init n w = (Inr t, w') \<and> faults w' = [] \<and> 0 < next_addr w'"
  by (simp add: ht_init_def alloc_def next_fault_def Let_def)

text \<open>
  C10. The capacity that \<open>cache_init\<close> works with is the maximum of the configured
  value and 4, and the three bounds are derived from it: \<open>Kin = C div 4\<close>,
  \<open>Am_cap = C - Kin\<close>, \<open>Kout = C div 2\<close>, for every configured value. For every
  value that the environment rules let through (below 10,000,000) the construction
  returns, and it returns a cache when no allocation fails. For a configured value
  below 4 the cache has \<open>C = 4\<close>, \<open>Kin = 1\<close>, \<open>Am_cap = 3\<close>, \<open>Kout = 2\<close>, never the
  configured value.
\<close>

theorem C10_effective_capacity:
  "(cfg < 10000000 \<longrightarrow> cache_init cfg ps w \<noteq> None) \<and>
   (cfg < 10000000 \<and> faults w = [] \<and> 0 < next_addr w \<longrightarrow>
      (\<exists>c w'. cache_init cfg ps w = Some (Inr c, w'))) \<and>
   (\<forall>c w'. cache_init cfg ps w = Some (Inr c, w') \<longrightarrow>
      capacity c = max cfg 4 \<and> kin c = capacity c div 4 \<and>
      am_cap c = capacity c - kin c \<and> kout c = capacity c div 2 \<and>
      (cfg < 4 \<longrightarrow>
         capacity c = 4 \<and> kin c = 1 \<and> am_cap c = 3 \<and> kout c = 2 \<and> capacity c \<noteq> cfg))"
proof (cases "cfg < 4")
  case True
  then have m: "max cfg 4 = 4" by (simp add: max.absorb2 less_imp_le)
  have a: "cache_init cfg ps w \<noteq> None"
    by (simp add: cache_init_small [OF True] split: prod.splits sum.splits)
  have b: "\<exists>c w'. cache_init cfg ps w = Some (Inr c, w')" if "faults w = []" "0 < next_addr w"
  proof -
    from ht_init_ok [OF that, of 16] obtain t w1 where 1: "ht_init 16 w = (Inr t, w1)"
      "faults w1 = []" "0 < next_addr w1" by blast
    from ht_init_ok [OF 1(2,3), of 8] obtain g w2 where 2: "ht_init 8 w1 = (Inr g, w2)" by blast
    from 1 2 show ?thesis by (simp add: cache_init_small [OF True])
  qed
  have c: "capacity c = max cfg 4 \<and> kin c = capacity c div 4 \<and>
      am_cap c = capacity c - kin c \<and> kout c = capacity c div 2 \<and>
      (cfg < 4 \<longrightarrow>
         capacity c = 4 \<and> kin c = 1 \<and> am_cap c = 3 \<and> kout c = 2 \<and> capacity c \<noteq> cfg)"
    if "cache_init cfg ps w = Some (Inr c, w')" for c w'
    using that True m
    by (auto simp: cache_init_small [OF True] split: prod.splits sum.splits)
  from a b c show ?thesis by blast
next
  case False
  then have m: "max cfg 4 = cfg" by (simp add: max.absorb1 not_less)
  have a: "cache_init cfg ps w \<noteq> None" if "cfg < 10000000"
  proof -
    from next_pow2_returns [OF cfg_small_bounds(1) [OF that]] obtain r1 where
      1: "next_pow2 (cfg * 4) = Some r1" by blast
    from next_pow2_returns [OF cfg_small_bounds(2) [OF that]] obtain r2 where
      2: "next_pow2 (cfg div 2 * 4) = Some r2" by blast
    from 1 2 show ?thesis
      by (simp add: cache_init_large [OF False] split: prod.splits sum.splits)
  qed
  have b: "\<exists>c w'. cache_init cfg ps w = Some (Inr c, w')"
    if "cfg < 10000000" "faults w = []" "0 < next_addr w"
  proof -
    from next_pow2_returns [OF cfg_small_bounds(1) [OF that(1)]] obtain r1 where
      1: "next_pow2 (cfg * 4) = Some r1" by blast
    from next_pow2_returns [OF cfg_small_bounds(2) [OF that(1)]] obtain r2 where
      2: "next_pow2 (cfg div 2 * 4) = Some r2" by blast
    from ht_init_ok [OF that(2,3), of "unat r1"] obtain t w1 where
      3: "ht_init (unat r1) w = (Inr t, w1)" "faults w1 = []" "0 < next_addr w1" by blast
    from ht_init_ok [OF 3(2,3), of "unat r2"] obtain g w2 where
      4: "ht_init (unat r2) w1 = (Inr g, w2)" by blast
    from 1 2 3 4 show ?thesis by (simp add: cache_init_large [OF False])
  qed
  have c: "capacity c = max cfg 4 \<and> kin c = capacity c div 4 \<and>
      am_cap c = capacity c - kin c \<and> kout c = capacity c div 2 \<and>
      (cfg < 4 \<longrightarrow>
         capacity c = 4 \<and> kin c = 1 \<and> am_cap c = 3 \<and> kout c = 2 \<and> capacity c \<noteq> cfg)"
    if "cache_init cfg ps w = Some (Inr c, w')" for c w'
    using that False m
    by (auto simp: cache_init_large [OF False] split: prod.splits sum.splits option.splits)
  from a b c show ?thesis by blast
qed

theorem C10_effective_capacity_witness:
  "cache_init 2 4096 (world_init [] []) \<noteq> None \<and>
   capacity (projr (fst (the (cache_init 2 4096 (world_init [] []))))) = 4 \<and>
   kin (projr (fst (the (cache_init 2 4096 (world_init [] []))))) = 1 \<and>
   am_cap (projr (fst (the (cache_init 2 4096 (world_init [] []))))) = 3 \<and>
   kout (projr (fst (the (cache_init 2 4096 (world_init [] []))))) = 2 \<and>
   cache_init 256 4096 (world_init [] []) \<noteq> None \<and>
   capacity (projr (fst (the (cache_init 256 4096 (world_init [] []))))) = 256 \<and>
   kin (projr (fst (the (cache_init 256 4096 (world_init [] []))))) = 64 \<and>
   am_cap (projr (fst (the (cache_init 256 4096 (world_init [] []))))) = 192 \<and>
   kout (projr (fst (the (cache_init 256 4096 (world_init [] []))))) = 128"
proof -
  have less: "(2::size_t) < 4" "(2::size_t) < 10000000" "(256::size_t) < 10000000"
    "\<not> (256::size_t) < 4" "max (256::size_t) 4 = 256"
    by (simp_all add: word_cmp max_def)
  have f: "faults (world_init [] []) = [] \<and> 0 < next_addr (world_init [] [])"
    by (simp add: world_init_def)
  from C10_effective_capacity [of 2 4096 "world_init [] []"] less f
  obtain c w' where e: "cache_init 2 4096 (world_init [] []) = Some (Inr c, w')"
    by blast
  from C10_effective_capacity [of 256 4096 "world_init [] []"] less f
  obtain c2 w2 where e2: "cache_init 256 4096 (world_init [] []) = Some (Inr c2, w2)"
    by blast
  have d: "(256::size_t) div 4 = 64" "(256::size_t) - 64 = 192" "(256::size_t) div 2 = 128"
    by simp_all
  from C10_effective_capacity [of 2 4096 "world_init [] []"] less e
  have 1: "capacity c = 4 \<and> kin c = 1 \<and> am_cap c = 3 \<and> kout c = 2" by simp
  from C10_effective_capacity [of 256 4096 "world_init [] []"] less e2 d
  have 2: "capacity c2 = 256 \<and> kin c2 = 64 \<and> am_cap c2 = 192 \<and> kout c2 = 128" by simp
  from 1 2 e e2 show ?thesis by simp
qed

section \<open>Reading a write-only handle\<close>

text \<open>
  C7 (as the code has it). On a handle opened write-only, a read of \<open>count > 0\<close> bytes
  into a buffer that is not \<open>NULL\<close> fails with \<open>EBADF\<close>; a read of \<open>count = 0\<close> returns
  0, because that test comes first; a \<open>NULL\<close> buffer with \<open>count > 0\<close> fails with
  \<open>EINVAL\<close>. No byte is transferred and the state does not change.
\<close>

theorem C7_write_only_read:
  "used h \<Longrightarrow> flags h AND O_ACCMODE = O_WRONLY \<Longrightarrow>
   vtpc_read h buf_null count w =
     Some (if buf_null \<and> count > 0 then Inl EINVAL
           else if count = 0 then Inr 0 else Inl EBADF, [], h, w)"
  by (simp add: vtpc_read_def)

lemma open_wronly:
  "vtpc_open None 4096 O_WRONLY globals_zero (world_init [] []) =
     Some (Inr \<lparr>used = True, flags = O_WRONLY, direct = True, pos = 0, size_h = 0,
       cache = \<lparr>page_size = 4096, capacity = 256, kin = 64, kout = 128, am_cap = 192,
          a1in_sz = 0, am_sz = 0, a1out_sz = 0, a1in = [], am = [], a1out = [],
          resident = \<lparr>cap = 1024, keys = replicate 1024 0, vals = replicate 1024 0,
                      state = replicate 1024 0\<rparr>,
          ghosts = \<lparr>cap = 512, keys = replicate 512 0, vals = replicate 512 0,
                    state = replicate 512 0\<rparr>\<rparr>\<rparr>,
        \<lparr>g_inited = True, g_cfg_cache_pages = 256\<rparr>,
        \<lparr>disk = [], faults = [], pages = Map.empty, ghost_mem = Map.empty, next_addr = 7\<rparr>)"
  by (simp add: init_defs os_defs ht_defs Let_def word_cmp cong: ev_congs)

theorem C7_write_only_read_witness:
  "vtpc_read (opened_handle (vtpc_open None 4096 O_WRONLY globals_zero (world_init [] [])))
     False 100 (opened_world (vtpc_open None 4096 O_WRONLY globals_zero (world_init [] []))) =
   Some (Inl EBADF, [],
     opened_handle (vtpc_open None 4096 O_WRONLY globals_zero (world_init [] [])),
     opened_world (vtpc_open None 4096 O_WRONLY globals_zero (world_init [] [])))"
proof -
  have u: "used (opened_handle (vtpc_open None 4096 O_WRONLY globals_zero (world_init [] [])))"
    unfolding open_wronly by (simp add: opened_handle_def)
  have f: "flags (opened_handle (vtpc_open None 4096 O_WRONLY globals_zero (world_init [] [])))
      AND O_ACCMODE = O_WRONLY"
    unfolding open_wronly by (simp add: opened_handle_def O_WRONLY_def O_ACCMODE_def)
  show ?thesis using C7_write_only_read [OF u f, of False 100] by simp
qed

text \<open>
  C7 (as stated) fails at \<open>count = 0\<close>: the read of a write-only handle returns 0.
\<close>

theorem C7_counterexample:
  "used (opened_handle (vtpc_open None 4096 O_WRONLY globals_zero (world_init [] []))) \<and>
   flags (opened_handle (vtpc_open None 4096 O_WRONLY globals_zero (world_init [] [])))
     AND O_ACCMODE = O_WRONLY \<and>
   fst (the (vtpc_read
     (opened_handle (vtpc_open None 4096 O_WRONLY globals_zero (world_init [] [])))
     False 0
     (opened_world (vtpc_open None 4096 O_WRONLY globals_zero (world_init [] []))))) = Inr 0"
  unfolding open_wronly
  by (simp add: opened_handle_def opened_world_def vtpc_read_def O_WRONLY_def O_ACCMODE_def)

section \<open>The ghost list in the six-read scenario\<close>

lemma open_c4:
  "vtpc_open (Some ''4'') 4096 mode globals_zero (world_init d []) =
    Some (Inr \<lparr>used = True, flags = mode, direct = True, pos = 0, size_h = int (length d),
      cache = \<lparr>page_size = 4096, capacity = 4, kin = 1, kout = 2, am_cap = 3,
          a1in_sz = 0, am_sz = 0, a1out_sz = 0, a1in = [], am = [], a1out = [],
          resident = \<lparr>cap = 16, keys = replicate 16 0, vals = replicate 16 0,
                      state = replicate 16 0\<rparr>,
          ghosts = \<lparr>cap = 8, keys = replicate 8 0, vals = replicate 8 0,
                    state = replicate 8 0\<rparr>\<rparr>\<rparr>,
     \<lparr>g_inited = True, g_cfg_cache_pages = 4\<rparr>,
     \<lparr>disk = d, faults = [], pages = Map.empty, ghost_mem = Map.empty,
       next_addr = 7\<rparr>)"
  by (simp add: init_defs os_defs ht_defs Let_def word_cmp cong: ev_congs)

text \<open>
  C5 (as the code has it). With \<open>VTPC_CACHE_PAGES=4\<close> (\<open>C = 4\<close>, \<open>Kin = 1\<close>,
  \<open>Kout = 2\<close>) and an 8-page file of 4096-byte pages, reading one page each from pages
  0, 1 leaves A1out = [0], reading page 2 as well leaves A1out = [1, 0], and a read of
  page 0 at that point finds the ghost and
  inserts the page into Am. A1out keeps \<open>Kout = 2\<close> page numbers: after the fourth read
  it is [2, 1], after the fifth [3, 2], and the sixth read (page 0 again) is a cold miss
  that inserts page 0 into A1in and leaves Am empty.
\<close>

theorem C5_ghost_list_holds_kout:
  "obs a1out_pages (session (Some ''4'') 4096 O_RDONLY (replicate 32768 0)
     [Read False 4096, Read False 4096]) = Some [0] \<and>
   obs a1out_pages (session (Some ''4'') 4096 O_RDONLY (replicate 32768 0)
     [Read False 4096, Read False 4096, Read False 4096]) = Some [1, 0] \<and>
   obs am_pages (session (Some ''4'') 4096 O_RDONLY (replicate 32768 0)
     [Read False 4096, Read False 4096, Read False 4096, Lseek 0 SEEK_SET, Read False 4096])
     = Some [0] \<and>
   obs a1out_pages (session (Some ''4'') 4096 O_RDONLY (replicate 32768 0)
     [Read False 4096, Read False 4096, Read False 4096, Read False 4096]) = Some [2, 1] \<and>
   obs a1out_pages (session (Some ''4'') 4096 O_RDONLY (replicate 32768 0)
     [Read False 4096, Read False 4096, Read False 4096, Read False 4096, Read False 4096])
     = Some [3, 2] \<and>
   obs a1in_pages (session (Some ''4'') 4096 O_RDONLY (replicate 32768 0)
     [Read False 4096, Read False 4096, Read False 4096, Read False 4096, Read False 4096,
      Lseek 0 SEEK_SET, Read False 4096]) = Some [0] \<and>
   obs am_pages (session (Some ''4'') 4096 O_RDONLY (replicate 32768 0)
     [Read False 4096, Read False 4096, Read False 4096, Read False 4096, Read False 4096,
      Lseek 0 SEEK_SET, Read False 4096]) = Some []"
  unfolding session_def open_c4
  by (simp add: obs_def a1out_pages_def a1in_pages_def am_pages_def io_defs cache_defs
      os_defs ht_ev Let_def word_cmp cong: ev_congs)

text \<open>
  C5 (as stated) fails: after the fifth read page 0 is not on A1out, and the sixth read
  leaves Am empty.
\<close>

theorem C5_counterexample:
  "0 \<notin> set (the (obs a1out_pages (session (Some ''4'') 4096 O_RDONLY (replicate 32768 0)
     [Read False 4096, Read False 4096, Read False 4096, Read False 4096, Read False 4096])))
   \<and>
   0 \<notin> set (the (obs am_pages (session (Some ''4'') 4096 O_RDONLY (replicate 32768 0)
     [Read False 4096, Read False 4096, Read False 4096, Read False 4096, Read False 4096,
      Lseek 0 SEEK_SET, Read False 4096])))"
  unfolding session_def open_c4
  by (simp add: obs_def a1out_pages_def a1in_pages_def am_pages_def io_defs cache_defs
      os_defs ht_ev Let_def word_cmp cong: ev_congs)

section \<open>A failed writeback during a promotion\<close>

text \<open>
  C3, at the failing input. With \<open>VTPC_CACHE_PAGES=4\<close>, Am full and its tail page 0 dirty,
  a second read of page 3 (on A1in) detaches the page from A1in and asks for room in Am;
  the writeback of page 0 fails with \<open>EIO\<close>, \<open>cache_get\<close> returns \<open>NULL\<close>, and page 3
  stays in the resident index while it is on neither list.
\<close>

theorem C3_orphan:
  "obs (in_resident_index 3) (session (Some ''4'') 4096 O_RDWR (replicate 32768 0) fill_am)
     = Some True \<and>
   obs (on_one_list 3) (session (Some ''4'') 4096 O_RDWR (replicate 32768 0) fill_am)
     = Some True \<and>
   obs (in_resident_index 3) (session (Some ''4'') 4096 O_RDWR (replicate 32768 0)
     (fill_am @ [Inject [Some EIO], Lseek 12288 SEEK_SET, Read False 1])) = Some True \<and>
   obs (on_one_list 3) (session (Some ''4'') 4096 O_RDWR (replicate 32768 0)
     (fill_am @ [Inject [Some EIO], Lseek 12288 SEEK_SET, Read False 1])) = Some False \<and>
   obs a1in_pages (session (Some ''4'') 4096 O_RDWR (replicate 32768 0)
     (fill_am @ [Inject [Some EIO], Lseek 12288 SEEK_SET, Read False 1])) = Some [] \<and>
   obs am_pages (session (Some ''4'') 4096 O_RDWR (replicate 32768 0)
     (fill_am @ [Inject [Some EIO], Lseek 12288 SEEK_SET, Read False 1])) = Some [0, 2, 1]"
  unfolding session_def open_c4
  by (simp add: scen_defs cong: ev_congs)

text \<open>
  C2, at the failing input. The next read of page 3 finds it in the index with the tag of
  A1in, decrements \<open>a1in_sz\<close> a second time, and the counter wraps to \<open>2^64 - 1\<close>,
  above \<open>Kin = 1\<close>.
\<close>

theorem C2_wrap:
  "obs bounds_ok (session (Some ''4'') 4096 O_RDWR (replicate 32768 0) fill_am) = Some True \<and>
   obs bounds_ok (session (Some ''4'') 4096 O_RDWR (replicate 32768 0)
     (fill_am @ [Inject [Some EIO], Lseek 12288 SEEK_SET, Read False 1,
                 Lseek 12288 SEEK_SET, Read False 1])) = Some False \<and>
   obs sizes (session (Some ''4'') 4096 O_RDWR (replicate 32768 0)
     (fill_am @ [Inject [Some EIO], Lseek 12288 SEEK_SET, Read False 1,
                 Lseek 12288 SEEK_SET, Read False 1])) = Some (18446744073709551615, 3, 0)"
  unfolding session_def open_c4
  by (simp add: scen_defs cong: ev_congs)

section \<open>Counterexamples of the I/O path\<close>

lemma open_default:
  "vtpc_open None 4096 mode globals_zero (world_init d []) =
     Some (Inr \<lparr>used = True, flags = mode, direct = True, pos = 0, size_h = int (length d),
       cache = \<lparr>page_size = 4096, capacity = 256, kin = 64, kout = 128, am_cap = 192,
          a1in_sz = 0, am_sz = 0, a1out_sz = 0, a1in = [], am = [], a1out = [],
          resident = \<lparr>cap = 1024, keys = replicate 1024 0, vals = replicate 1024 0,
                      state = replicate 1024 0\<rparr>,
          ghosts = \<lparr>cap = 512, keys = replicate 512 0, vals = replicate 512 0,
                    state = replicate 512 0\<rparr>\<rparr>\<rparr>,
        \<lparr>g_inited = True, g_cfg_cache_pages = 256\<rparr>,
        \<lparr>disk = d, faults = [], pages = Map.empty, ghost_mem = Map.empty, next_addr = 7\<rparr>)"
  by (simp add: init_defs os_defs ht_defs Let_def word_cmp cong: ev_congs)

theorem C4_counterexample:
  "obs cursor (session None 4096 O_RDWR []
     [Read False 1, Lseek 4096 SEEK_SET, Write (Some [1]) 1, Lseek 0 SEEK_SET]) = Some (0, 4097) \<and>
   read_result (session None 4096 O_RDWR []
     [Read False 1, Lseek 4096 SEEK_SET, Write (Some [1]) 1, Lseek 0 SEEK_SET]) False 1
     = Some (Inr 0, []) \<and>
   read_result (session None 4096 O_RDWR [] [Inject [None, None, Some EIO]]) False 1
     = Some (Inl EIO, [])"
  unfolding session_def open_default
  by (simp add: scen_defs cong: ev_congs)

theorem C1_counterexample:
  "write_result (session (Some ''4'') 4096 O_RDWR [] []) (Some (replicate 4097 0x41)) 4097
     = Some (Inr 4097) \<and>
   read_result (session (Some ''4'') 4096 O_RDWR []
     [Write (Some (replicate 4097 0x41)) 4097, Lseek 0 SEEK_SET,
      Inject [None, None, Some EIO]]) False 4097 = Some (Inl EIO, [])"
  unfolding session_def open_c4
  by (simp add: scen_defs cong: ev_congs)

section \<open>The hash index\<close>

text \<open>
  A search, an insertion and a deletion that return do what they do on a finite map, on
  every well-formed table; a search or a deletion of a key that is present returns.
\<close>

lemma nat_and_le: "(x::nat) AND m \<le> m"
  by (simp add: and_nat_def) (metis AND_upper2 nat_int nat_mono of_nat_0_le_iff)

lemma ht_slot_lt: "0 < cap t \<Longrightarrow> ht_slot t k < cap t"
proof -
  assume c: "0 < cap t"
  have "unat (hash_u64 (word_of_nat k) AND word_of_nat (cap t - 1)) \<le> unat (word_of_nat (cap t - 1) :: 64 word)"
    by (rule word_and_le1 [THEN word_le_nat_alt [THEN iffD1]])
  also have "\<dots> \<le> cap t - 1" by (simp add: unat_of_nat)
  finally show ?thesis using c by (simp add: ht_slot_def)
qed

lemma probe_lt: "0 < cap t \<Longrightarrow> probe t k n < cap t"
proof (cases n)
  case 0 then show "0 < cap t \<Longrightarrow> ?thesis" by (simp add: ht_slot_lt)
next
  case (Suc m)
  assume "0 < cap t"
  moreover have "(probe t k m + 1) AND (cap t - 1) \<le> cap t - 1" by (rule nat_and_le)
  ultimately show ?thesis using Suc by simp
qed

lemma probe_cong: "cap t' = cap t \<Longrightarrow> probe t' k n = probe t k n"
  by (induction n) (simp_all add: ht_slot_def)

lemma ht_get_loop_found:
  assumes "ht_ok t" "occ t j k" "probe t k n = j" "\<forall>m<n. state t ! probe t k m \<noteq> 0" "m \<le> n"
  shows "ht_get_loop t k (probe t k m) = Some (vals t ! j)"
  using assms(5)
proof (induction "n - m" arbitrary: m)
  case 0
  then have "m = n" by simp
  with assms show ?case
    by (subst ht_get_loop.simps) (simp add: occ_def)
next
  case (Suc d)
  then have lt: "m < n" and d: "d = n - Suc m" and le: "Suc m \<le> n" by auto
  from assms(4) lt have ne: "state t ! probe t k m \<noteq> 0" by simp
  show ?case
  proof (cases "state t ! probe t k m = 1 \<and> keys t ! probe t k m = k")
    case True
    from assms(1) have "probe t k m < cap t" by (simp add: ht_ok_def probe_lt)
    with True have "occ t (probe t k m) k" by (simp add: occ_def)
    with assms(1,2) have "probe t k m = j" by (auto simp: ht_ok_def)
    with True show ?thesis by (subst ht_get_loop.simps) simp
  next
    case False
    have "ht_get_loop t k (probe t k (Suc m)) = Some (vals t ! j)"
      by (rule Suc.hyps(1) [OF d le])
    with False ne show ?thesis by (subst ht_get_loop.simps) (auto simp: Let_def)
  qed
qed

lemma ht_get_found: "ht_ok t \<Longrightarrow> occ t j k \<Longrightarrow> ht_get t k = Some (vals t ! j)"
proof -
  assume ok: "ht_ok t" and o: "occ t j k"
  then obtain n where "probe t k n = j" "\<forall>m<n. state t ! probe t k m \<noteq> 0"
    unfolding ht_ok_def by blast
  from ht_get_loop_found [OF ok o this, of 0] ok show ?thesis
    by (simp add: ht_get_def ht_ok_def)
qed

lemma nxt_lt: "i < cap t \<Longrightarrow> (i + 1) AND (cap t - 1) < cap t"
  using nat_and_le [of "i + 1" "cap t - 1"] by simp

lemma nxt_lt': "i < cap t \<Longrightarrow> Suc i AND (cap t - Suc 0) < cap t"
  using nxt_lt [of i t] by simp

lemma ht_get_loop_some:
  assumes "ht_get_loop t k i = Some a"
  shows "a \<noteq> NULL \<longrightarrow> i < cap t \<longrightarrow> (\<exists>j. occ t j k \<and> vals t ! j = a)"
  by (rule ht_get_loop.raw_induct [where P = "\<lambda>t k i a. a \<noteq> NULL \<longrightarrow> i < cap t \<longrightarrow>
        (\<exists>j. occ t j k \<and> vals t ! j = a)", OF _ assms])
     (auto simp: Let_def occ_def nxt_lt' split: if_splits)

lemma ht_get_some:
  "ht_get t k = Some a \<Longrightarrow> a \<noteq> NULL \<Longrightarrow> \<exists>j. occ t j k \<and> vals t ! j = a"
  using ht_get_loop_some [of t k "ht_slot t k" a] ht_slot_lt [of t k]
  by (auto simp: ht_get_def split: if_splits)

lemma ht_del_loop_found:
  assumes "ht_ok t" "occ t j k" "probe t k n = j" "\<forall>m<n. state t ! probe t k m \<noteq> 0" "m \<le> n"
  shows "ht_del_loop t k (probe t k m) = Some (tomb t j)"
  using assms(5)
proof (induction "n - m" arbitrary: m)
  case 0
  then have "m = n" by simp
  with assms show ?case
    by (subst ht_del_loop.simps) (simp add: occ_def tomb_def)
next
  case (Suc d)
  then have lt: "m < n" and d: "d = n - Suc m" and le: "Suc m \<le> n" by auto
  from assms(4) lt have ne: "state t ! probe t k m \<noteq> 0" by simp
  show ?case
  proof (cases "state t ! probe t k m = 1 \<and> keys t ! probe t k m = k")
    case True
    from assms(1) have "probe t k m < cap t" by (simp add: ht_ok_def probe_lt)
    with True have "occ t (probe t k m) k" by (simp add: occ_def)
    with assms(1,2) have "probe t k m = j" by (auto simp: ht_ok_def)
    with True show ?thesis by (subst ht_del_loop.simps) (simp add: tomb_def)
  next
    case False
    have "ht_del_loop t k (probe t k (Suc m)) = Some (tomb t j)"
      by (rule Suc.hyps(1) [OF d le])
    with False ne show ?thesis by (subst ht_del_loop.simps) (auto simp: Let_def)
  qed
qed

lemma ht_del_found: "ht_ok t \<Longrightarrow> occ t j k \<Longrightarrow> ht_del t k = Some (tomb t j)"
proof -
  assume ok: "ht_ok t" and o: "occ t j k"
  then obtain n where "probe t k n = j" "\<forall>m<n. state t ! probe t k m \<noteq> 0"
    unfolding ht_ok_def by blast
  from ht_del_loop_found [OF ok o this, of 0] ok show ?thesis
    by (simp add: ht_del_def ht_ok_def)
qed

lemma ht_del_loop_cases:
  assumes "ht_del_loop t k i = Some t'"
  shows "i < cap t \<longrightarrow> (t' = t \<or> (\<exists>j. occ t j k \<and> t' = tomb t j))"
  by (rule ht_del_loop.raw_induct [where P = "\<lambda>t k i t'. i < cap t \<longrightarrow>
        (t' = t \<or> (\<exists>j. occ t j k \<and> t' = tomb t j))", OF _ assms])
     (auto simp: Let_def occ_def nxt_lt' tomb_def split: if_splits)

lemma ht_del_cases:
  "ht_del t k = Some t' \<Longrightarrow> 0 < cap t \<Longrightarrow> t' = t \<or> (\<exists>j. occ t j k \<and> t' = tomb t j)"
  using ht_del_loop_cases [of t k "ht_slot t k" t'] ht_slot_lt [of t k]
  by (auto simp: ht_del_def)

lemma occ_tomb: "length (state t) = cap t \<Longrightarrow> occ (tomb t j) i k \<longleftrightarrow> occ t i k \<and> i \<noteq> j"
  by (cases "i = j") (auto simp: occ_def tomb_def)

lemma ht_ok_tomb: "ht_ok t \<Longrightarrow> ht_ok (tomb t j)"
proof -
  assume ok: "ht_ok t"
  have c: "cap (tomb t j) = cap t" by (simp add: tomb_def)
  have st: "state t ! i \<noteq> 0 \<Longrightarrow> i < cap t \<Longrightarrow> state (tomb t j) ! i \<noteq> 0" for i
    using ok by (cases "i = j") (auto simp: tomb_def ht_ok_def)
  have o: "\<And>i k. occ (tomb t j) i k \<longleftrightarrow> occ t i k \<and> i \<noteq> j"
    using ok by (simp add: occ_tomb ht_ok_def)
  show ?thesis
    unfolding ht_ok_def
  proof (intro conjI allI impI)
    show "0 < cap (tomb t j)" "length (keys (tomb t j)) = cap (tomb t j)"
      "length (vals (tomb t j)) = cap (tomb t j)" "length (state (tomb t j)) = cap (tomb t j)"
      using ok by (simp_all add: tomb_def ht_ok_def)
  next
    fix i i' k assume "occ (tomb t j) i k" "occ (tomb t j) i' k"
    then show "i = i'" using ok o unfolding ht_ok_def by blast
  next
    fix i k assume "occ (tomb t j) i k"
    then have "occ t i k" by (simp add: o)
    with ok obtain n where n: "probe t k n = i" "\<forall>m<n. state t ! probe t k m \<noteq> 0"
      unfolding ht_ok_def by blast
    have "\<forall>m<n. state (tomb t j) ! probe (tomb t j) k m \<noteq> 0"
      using n(2) st ok by (simp add: probe_cong [OF c] probe_lt ht_ok_def)
    with n(1) show "\<exists>n. probe (tomb t j) k n = i \<and> (\<forall>m<n. state (tomb t j) ! probe (tomb t j) k m \<noteq> 0)"
      by (auto simp: probe_cong [OF c])
  qed
qed

lemma put_step_empty:
  assumes ok: "ht_ok t" and pre: "put_pre t k i ft" and st: "state t ! i = 0"
  shows "put_res t k v (set_slot t (case ft of Some f \<Rightarrow> f | None \<Rightarrow> i) k v)"
proof -
  from pre obtain n where n: "i = probe t k n"
    and vis: "\<forall>m<n. state t ! probe t k m \<noteq> 0 \<and> \<not> occ t (probe t k m) k"
    and f: "case ft of None \<Rightarrow> True | Some f \<Rightarrow> \<exists>m<n. probe t k m = f \<and> state t ! f = 2"
    unfolding put_pre_def by blast
  have noocc: "\<not> occ t i' k" for i'
  proof
    assume o: "occ t i' k"
    with ok obtain n' where n': "probe t k n' = i'" "\<forall>m<n'. state t ! probe t k m \<noteq> 0"
      unfolding ht_ok_def by blast
    consider "n' < n" | "n' = n" | "n < n'" by linarith
    then show False
    proof cases
      case 1 with vis n'(1) o show False by auto
    next
      case 2 with n n'(1) o st show False by (simp add: occ_def)
    next
      case 3 with n'(2) n st show False by auto
    qed
  qed
  show ?thesis
  proof (cases ft)
    case None
    have "probe t k n = i \<and> (\<forall>m<n. state t ! probe t k m \<noteq> 0) \<and>
        set_slot t i k v = set_slot t i k v \<and> (occ t i k \<or> (state t ! i \<noteq> 1 \<and> (\<forall>i. \<not> occ t i k)))"
      using n vis st noocc by simp
    then show ?thesis unfolding put_res_def None by (simp only: option.case) blast
  next
    case (Some fi)
    with f obtain m0 where m0: "m0 < n" "probe t k m0 = fi" "state t ! fi = 2" by auto
    have "probe t k m0 = fi \<and> (\<forall>m<m0. state t ! probe t k m \<noteq> 0) \<and>
        set_slot t fi k v = set_slot t fi k v \<and> (occ t fi k \<or> (state t ! fi \<noteq> 1 \<and> (\<forall>i. \<not> occ t i k)))"
      using m0 vis noocc by simp
    then show ?thesis unfolding put_res_def Some by (simp only: option.case) blast
  qed
qed

lemma put_step_match:
  assumes ok: "ht_ok t" and pre: "put_pre t k i ft" and st: "state t ! i = 1" "keys t ! i = k"
  shows "put_res t k v (t\<lparr>vals := (vals t)[i := v]\<rparr>)"
proof -
  from pre obtain n where n: "i = probe t k n"
    and vis: "\<forall>m<n. state t ! probe t k m \<noteq> 0 \<and> \<not> occ t (probe t k m) k"
    unfolding put_pre_def by blast
  from ok n have lt: "i < cap t" by (simp add: probe_lt ht_ok_def)
  with st have o: "occ t i k" by (simp add: occ_def)
  have "(state t)[i := 1] = state t" "(keys t)[i := k] = keys t"
    using st list_update_id [of "state t" i] list_update_id [of "keys t" i] by simp_all
  then have "t\<lparr>vals := (vals t)[i := v]\<rparr> = set_slot t i k v"
    by (simp add: set_slot_def)
  with n vis o show ?thesis unfolding put_res_def by auto
qed

lemma put_step_next:
  assumes ok: "ht_ok t" and pre: "put_pre t k i ft" and st: "state t ! i \<noteq> 0"
    "\<not> (state t ! i = 1 \<and> keys t ! i = k)"
  shows "put_pre t k ((i + 1) AND (cap t - 1))
    (if state t ! i = 2 \<and> ft = None then Some i else ft)"
proof -
  from pre obtain n where n: "i = probe t k n"
    and vis: "\<forall>m<n. state t ! probe t k m \<noteq> 0 \<and> \<not> occ t (probe t k m) k"
    and f: "case ft of None \<Rightarrow> True | Some f \<Rightarrow> \<exists>m<n. probe t k m = f \<and> state t ! f = 2"
    unfolding put_pre_def by blast
  have vis': "\<forall>m<Suc n. state t ! probe t k m \<noteq> 0 \<and> \<not> occ t (probe t k m) k"
    using vis st n by (auto simp: occ_def less_Suc_eq)
  have f': "case (if state t ! i = 2 \<and> ft = None then Some i else ft) of None \<Rightarrow> True
     | Some f \<Rightarrow> \<exists>m<Suc n. probe t k m = f \<and> state t ! f = 2"
    using f n by (auto split: option.splits simp: less_Suc_eq)
  have "(i + 1) AND (cap t - 1) = probe t k (Suc n)" using n by simp
  with vis' f' show ?thesis unfolding put_pre_def by blast
qed

lemma ht_put_loop_char:
  assumes "ht_put_loop t k v i ft = Some t'"
  shows "ht_ok t \<longrightarrow> put_pre t k i ft \<longrightarrow> put_res t k v t'"
proof (rule ht_put_loop.raw_induct [where P = "\<lambda>t k v i ft t'.
    ht_ok t \<longrightarrow> put_pre t k i ft \<longrightarrow> put_res t k v t'", OF _ assms])
  fix loop t k v i ft t'
  assume IH: "\<And>t k v i ft t'. loop t k v i ft = Some t' \<Longrightarrow>
      ht_ok t \<longrightarrow> put_pre t k i ft \<longrightarrow> put_res t k v t'"
    and body: "(let st = state t ! i in
     if st = 0 then
       (let idx = (case ft of Some ft \<Rightarrow> ft | None \<Rightarrow> i)
        in Some (t\<lparr>state := (state t)[idx := 1], keys := (keys t)[idx := k],
                   vals := (vals t)[idx := v]\<rparr>))
     else
       (let first_tomb' = (if st = 2 \<and> ft = None then Some i else ft)
        in if st = 1 \<and> keys t ! i = k then Some (t\<lparr>vals := (vals t)[i := v]\<rparr>)
           else loop t k v ((i + 1) AND (cap t - 1)) first_tomb')) = Some t'"
  show "ht_ok t \<longrightarrow> put_pre t k i ft \<longrightarrow> put_res t k v t'"
  proof (intro impI)
    assume ok: "ht_ok t" and pre: "put_pre t k i ft"
    consider (empty) "state t ! i = 0"
      | (match) "state t ! i = 1" "keys t ! i = k"
      | (continue) "state t ! i \<noteq> 0" "\<not> (state t ! i = 1 \<and> keys t ! i = k)"
      by blast
    then show "put_res t k v t'"
    proof cases
      case empty
      with body have "t' = set_slot t (case ft of Some f \<Rightarrow> f | None \<Rightarrow> i) k v"
        by (simp add: Let_def set_slot_def)
      with put_step_empty [OF ok pre empty] show ?thesis by simp
    next
      case match
      with body have "t' = t\<lparr>vals := (vals t)[i := v]\<rparr>" by (simp add: Let_def)
      with put_step_match [OF ok pre match] show ?thesis by simp
    next
      case continue
      with body have "loop t k v ((i + 1) AND (cap t - 1))
          (if state t ! i = 2 \<and> ft = None then Some i else ft) = Some t'"
        by (auto simp: Let_def split: if_splits)
      from IH [OF this] ok put_step_next [OF ok pre continue] show ?thesis by blast
    qed
  qed
qed

lemma ht_put_char: "ht_ok t \<Longrightarrow> ht_put t k v = Some t' \<Longrightarrow> put_res t k v t'"
  using ht_put_loop_char [of t k v "ht_slot t k" None t']
  by (simp add: ht_put_def put_pre_def) (metis less_nat_zero_code probe.simps(1))

lemma occ_set_slot:
  assumes "length (state t) = cap t" "length (keys t) = cap t" "j < cap t"
  shows "occ (set_slot t j k v) i k' \<longleftrightarrow> (i = j \<and> k' = k) \<or> (i \<noteq> j \<and> occ t i k')"
  using assms by (cases "i = j") (auto simp: occ_def set_slot_def)

lemma vals_set_slot:
  "length (vals t) = cap t \<Longrightarrow> j < cap t \<Longrightarrow>
   vals (set_slot t j k v) ! i = (if i = j then v else vals t ! i)"
  by (simp add: set_slot_def)

lemma ht_ok_set_slot:
  assumes ok: "ht_ok t" and n: "probe t k n = j" "\<forall>m<n. state t ! probe t k m \<noteq> 0"
    and free: "occ t j k \<or> (\<forall>i. \<not> occ t i k)"
  shows "ht_ok (set_slot t j k v)"
proof -
  let ?t = "set_slot t j k v"
  from ok have len: "length (state t) = cap t" "length (keys t) = cap t" "length (vals t) = cap t"
    and c0: "0 < cap t" by (simp_all add: ht_ok_def)
  have j: "j < cap t" using n(1) c0 probe_lt [of t k n] by simp
  have c: "cap ?t = cap t" by (simp add: set_slot_def)
  have st: "state t ! i \<noteq> 0 \<Longrightarrow> state ?t ! i \<noteq> 0" for i
    using len j by (cases "i = j") (auto simp: set_slot_def)
  have o: "occ ?t i k' \<longleftrightarrow> (i = j \<and> k' = k) \<or> (i \<noteq> j \<and> occ t i k')" for i k'
    by (rule occ_set_slot [OF len(1,2) j])
  show ?thesis
    unfolding ht_ok_def
  proof (intro conjI allI impI)
    show "0 < cap ?t" "length (keys ?t) = cap ?t" "length (vals ?t) = cap ?t"
      "length (state ?t) = cap ?t"
      using len c0 by (simp_all add: set_slot_def)
  next
    fix i i' k' assume a: "occ ?t i k'" "occ ?t i' k'"
    show "i = i'"
    proof (cases "k' = k")
      case True
      from a free ok show ?thesis unfolding o True ht_ok_def by blast
    next
      case False
      with a have "occ t i k'" "occ t i' k'" by (auto simp: o)
      with ok show ?thesis unfolding ht_ok_def by blast
    qed
  next
    fix i k' assume a: "occ ?t i k'"
    show "\<exists>n. probe ?t k' n = i \<and> (\<forall>m<n. state ?t ! probe ?t k' m \<noteq> 0)"
    proof (cases "i = j \<and> k' = k")
      case True
      with n st show ?thesis by (auto simp: probe_cong [OF c])
    next
      case False
      with a have "occ t i k'" by (auto simp: o)
      with ok obtain n' where "probe t k' n' = i" "\<forall>m<n'. state t ! probe t k' m \<noteq> 0"
        unfolding ht_ok_def by blast
      with st show ?thesis by (auto simp: probe_cong [OF c])
    qed
  qed
qed

lemma ht_put_result:
  assumes ok: "ht_ok t" and p: "ht_put t k v = Some t'"
  shows "\<exists>j<cap t. t' = set_slot t j k v \<and> (occ t j k \<or> (state t ! j \<noteq> 1 \<and> (\<forall>i. \<not> occ t i k)))
           \<and> ht_ok t'"
proof -
  from ht_put_char [OF ok p] obtain j n where
    n: "probe t k n = j" "\<forall>m<n. state t ! probe t k m \<noteq> 0" and t': "t' = set_slot t j k v"
    and f: "occ t j k \<or> (state t ! j \<noteq> 1 \<and> (\<forall>i. \<not> occ t i k))"
    unfolding put_res_def by blast
  from ok n(1) have "j < cap t" using probe_lt [of t k n] by (simp add: ht_ok_def)
  moreover have "ht_ok t'" unfolding t' using f by (intro ht_ok_set_slot [OF ok n]) blast
  ultimately show ?thesis using t' f by blast
qed

lemma ht_ok_fresh: "0 < n \<Longrightarrow>
  ht_ok \<lparr>cap = n, keys = replicate n 0, vals = replicate n NULL, state = replicate n 0\<rparr>"
  by (auto simp: ht_ok_def occ_def)

lemma next_pow2_loop_nonzero:
  assumes "next_pow2_loop p x = Some r"
  shows "r = 0 \<longrightarrow> p = 0 \<and> x = 0"
proof -
  from assms have "(case (p, x) of (a, b) \<Rightarrow> next_pow2_loop a b) = Some r" by simp
  then have "(case (p, x) of (p, x) \<Rightarrow> \<lambda>r. r = 0 \<longrightarrow> p = 0 \<and> x = 0) r"
  proof (rule next_pow2_loop.raw_induct [rotated], goal_cases)
    case (1 loop p x r)
    show ?case
    proof (cases "p < x")
      case True
      then have "x \<noteq> 0" by (auto simp: word_less_nat_alt)
      moreover from True 1(2) have "loop (push_bit 1 p) x = Some r" by simp
      ultimately show ?thesis using 1(1) by blast
    next
      case False
      with 1(2) have "r = p" by simp
      moreover from False have "p = 0 \<longrightarrow> x = 0" by (auto simp: word_less_nat_alt unat_eq_zero)
      ultimately show ?thesis by simp
    qed
  qed
  then show ?thesis by simp
qed

lemma next_pow2_pos: "next_pow2 x = Some r \<Longrightarrow> 0 < unat r"
  using next_pow2_loop_nonzero [of 1 x r] by (auto simp: next_pow2_def unat_gt_0)

lemma lookup_fun: "ht_ok t \<Longrightarrow> lookup t k a \<Longrightarrow> lookup t k b \<Longrightarrow> a = b"
  unfolding lookup_def ht_ok_def by blast

lemma lookup_tomb:
  assumes ok: "ht_ok t" and o: "occ t j k0"
  shows "lookup (tomb t j) k a \<longleftrightarrow> k \<noteq> k0 \<and> lookup t k a"
proof -
  from ok have len: "length (state t) = cap t" "length (vals t) = cap t" by (auto simp: ht_ok_def)
  have v: "i \<noteq> j \<Longrightarrow> vals (tomb t j) ! i = vals t ! i" for i by (simp add: tomb_def)
  from ok o have u: "occ t i k0 \<Longrightarrow> i = j" for i unfolding ht_ok_def by blast
  from o have k: "occ t j k \<Longrightarrow> k = k0" for k by (auto simp: occ_def)
  show ?thesis
    unfolding lookup_def occ_tomb [OF len(1)]
    using v u k by metis
qed

lemma ht_del_lookup:
  assumes ok: "ht_ok t" and d: "ht_del t k0 = Some t'"
  shows "ht_ok t' \<and> (\<forall>k a. lookup t' k a \<longleftrightarrow> k \<noteq> k0 \<and> lookup t k a)"
proof (cases "\<exists>j. occ t j k0")
  case True
  then obtain j where j: "occ t j k0" ..
  from ht_del_found [OF ok j] d have "t' = tomb t j" by simp
  with lookup_tomb [OF ok j] ht_ok_tomb [OF ok] show ?thesis by simp
next
  case False
  with ht_del_cases [OF d] ok have "t' = t" by (auto simp: ht_ok_def)
  with False ok show ?thesis by (auto simp: lookup_def)
qed

lemma ht_put_lookup:
  assumes ok: "ht_ok t" and p: "ht_put t k0 v = Some t'"
  shows "ht_ok t' \<and> (\<forall>k a. lookup t' k a \<longleftrightarrow> (if k = k0 then a = v else lookup t k a))"
proof -
  from ht_put_result [OF ok p] obtain j where j: "j < cap t" and t': "t' = set_slot t j k0 v"
    and fr: "occ t j k0 \<or> (state t ! j \<noteq> 1 \<and> (\<forall>i. \<not> occ t i k0))" and ok': "ht_ok t'"
    by blast
  from ok have len: "length (state t) = cap t" "length (keys t) = cap t" "length (vals t) = cap t"
    by (auto simp: ht_ok_def)
  note os = occ_set_slot [OF len(1) len(2) j] and vs = vals_set_slot [OF len(3) j]
  from ok have u: "occ t i k \<Longrightarrow> occ t i' k \<Longrightarrow> i = i'" for i i' k unfolding ht_ok_def by blast
  have "lookup t' k a \<longleftrightarrow> (if k = k0 then a = v else lookup t k a)" for k a
  proof (cases "k = k0")
    case True
    have "lookup t' k0 a \<longleftrightarrow> a = v"
      unfolding lookup_def t' os vs using fr u by (auto split: if_splits)
    with True show ?thesis by simp
  next
    case False
    have "\<not> occ t j k" using fr False by (auto simp: occ_def)
    then have "lookup t' k a \<longleftrightarrow> lookup t k a"
      unfolding lookup_def t' os vs using False by (auto split: if_splits)
    with False show ?thesis by simp
  qed
  with ok' show ?thesis by blast
qed

lemma ht_get_lookup: "ht_ok t \<Longrightarrow> lookup t k a \<Longrightarrow> ht_get t k = Some a"
  unfolding lookup_def using ht_get_found by blast

lemma lookup_ht_get: "ht_get t k = Some a \<Longrightarrow> a \<noteq> NULL \<Longrightarrow> lookup t k a"
  unfolding lookup_def by (rule ht_get_some)

lemma lookup_fresh:
  "\<not> lookup \<lparr>cap = n, keys = replicate n 0, vals = replicate n NULL, state = replicate n 0\<rparr> k a"
  by (auto simp: lookup_def occ_def)

section \<open>Eviction\<close>

lemma ghost_step_refl [simp]: "ghost_step c c"
  by (simp add: ghost_step_def)

lemma ghost_step_trans: "ghost_step c c1 \<Longrightarrow> ghost_step c1 c2 \<Longrightarrow> ghost_step c c2"
  unfolding ghost_step_def by (cases c, cases c1, cases c2) simp

lemma env_step_refl [simp]: "env_step w w"
  by (simp add: env_step_def)

lemma env_step_trans: "env_step w w1 \<Longrightarrow> env_step w1 w2 \<Longrightarrow> env_step w w2"
  by (auto simp: env_step_def)

lemma next_fault_eff: "next_fault w = (f, w') \<Longrightarrow> w' = w\<lparr>faults := faults w'\<rparr>"
  by (auto simp: next_fault_def split: list.splits)

lemma alloc_eff:
  "alloc w = (a, w') \<Longrightarrow>
     pages w' = pages w \<and> disk w' = disk w \<and> ghost_mem w' = ghost_mem w \<and>
     next_addr w \<le> next_addr w' \<and> (a \<noteq> NULL \<longrightarrow> a = next_addr w \<and> next_addr w' = Suc a)"
  by (auto simp: alloc_def next_fault_def split: list.splits option.splits prod.splits)

lemma cache_trim_a1out_eff:
  assumes "cache_trim_a1out c w = Some r"
  shows "ghost_step c (fst r) \<and> env_step w (snd r)"
proof (rule cache_trim_a1out.raw_induct [where P = "\<lambda>c w r. ghost_step c (fst r) \<and> env_step w (snd r)",
      OF _ assms], goal_cases)
  case (1 loop c w r)
  show ?case
  proof (cases "a1out_sz c > kout c \<and> fst (ghost_list_pop_back (a1out c)) \<noteq> NULL")
    case False
    with 1(2) have "r = (c, w)" by (auto split: if_splits prod.splits)
    then show ?thesis by simp
  next
    case True
    obtain old l where pb: "ghost_list_pop_back (a1out c) = (old, l)" by force
    with True 1(2) obtain t where t: "ht_del (ghosts c) (the (ghost_mem w old)) = Some t"
      and r: "loop (c\<lparr>a1out := l, ghosts := t, a1out_sz := a1out_sz c - 1\<rparr>)
               (cache_free_ghost old w) = Some r"
      by (auto split: if_splits option.splits)
    from 1(1) [OF r] have
      "ghost_step (c\<lparr>a1out := l, ghosts := t, a1out_sz := a1out_sz c - 1\<rparr>) (fst r)"
      "env_step (cache_free_ghost old w) (snd r)" by simp_all
    moreover have "ghost_step c (c\<lparr>a1out := l, ghosts := t, a1out_sz := a1out_sz c - 1\<rparr>)"
      by (simp add: ghost_step_def)
    moreover have "env_step w (cache_free_ghost old w)"
      by (simp add: env_step_def cache_free_ghost_def)
    ultimately show ?thesis using ghost_step_trans env_step_trans by blast
  qed
qed

lemma cache_add_ghost_eff:
  assumes "cache_add_ghost c pn w = Some (rc, c', w')"
  shows "ghost_step c c' \<and> env_step w w'"
proof (cases "ht_get (ghosts c) pn")
  case None
  with assms show ?thesis by (simp add: cache_add_ghost_def)
next
  case (Some existing)
  show ?thesis
  proof (cases "existing \<noteq> NULL")
    case True
    with assms Some show ?thesis by (auto simp: cache_add_ghost_def ghost_step_def)
  next
    case False
    obtain g w1 where al: "alloc w = (g, w1)" by force
    show ?thesis
    proof (cases "g = NULL")
      case True
      with assms Some False al alloc_eff [OF al] show ?thesis
        by (auto simp: cache_add_ghost_def env_step_def)
    next
      case gnn: False
      let ?w2 = "w1\<lparr>ghost_mem := (ghost_mem w1)(g \<mapsto> pn)\<rparr>"
      let ?c1 = "c\<lparr>a1out := ghost_list_push_front (a1out c) g, a1out_sz := a1out_sz c + 1\<rparr>"
      from assms Some False al gnn obtain t c2 w3 where
        "ht_put (ghosts ?c1) pn g = Some t"
        and tr: "cache_trim_a1out (?c1\<lparr>ghosts := t\<rparr>) ?w2 = Some (c2, w3)"
        and res: "c' = c2" "w' = w3"
        by (auto simp: cache_add_ghost_def Let_def split: option.splits)
      from cache_trim_a1out_eff [OF tr] have "ghost_step (?c1\<lparr>ghosts := t\<rparr>) c2" "env_step ?w2 w3"
        by simp_all
      moreover have "ghost_step c (?c1\<lparr>ghosts := t\<rparr>)" by (simp add: ghost_step_def)
      moreover have "env_step w ?w2" using alloc_eff [OF al] by (simp add: env_step_def)
      ultimately show ?thesis using res ghost_step_trans env_step_trans by blast
    qed
  qed
qed

lemma static_eq_refl [simp]: "static_eq h h"
  by (simp add: static_eq_def)

lemma static_eq_trans: "static_eq h h1 \<Longrightarrow> static_eq h1 h2 \<Longrightarrow> static_eq h h2"
  by (simp add: static_eq_def)

lemma cache_flush_page_cong:
  "static_eq h h' \<Longrightarrow> cache_flush_page h' p w = cache_flush_page h p w"
  by (simp add: cache_flush_page_def static_eq_def pwrite_fullpage_def
      cong: prod.case_cong sum.case_cong option.case_cong if_cong)

lemma pwrite_eff:
  "pwrite w fl buf off = (r, w') \<Longrightarrow>
     pages w' = pages w \<and> next_addr w' = next_addr w \<and> ghost_mem w' = ghost_mem w \<and>
     (case r of Inl e \<Rightarrow> disk w' = disk w
      | Inr n \<Rightarrow> n = length buf \<and> fd_writable fl \<and>
          disk w' = (if fl AND O_APPEND \<noteq> 0 then disk w @ buf else disk_pwrite (disk w) buf off))"
  by (auto simp: pwrite_def next_fault_def split: list.splits option.splits if_splits)

lemma ftruncate_eff:
  "ftruncate w fl len = (r, w') \<Longrightarrow>
     pages w' = pages w \<and> next_addr w' = next_addr w \<and> ghost_mem w' = ghost_mem w \<and>
     (case r of Some e \<Rightarrow> disk w' = disk w
      | None \<Rightarrow> 0 \<le> len \<and> fd_writable fl \<and> disk w' = disk_truncate (disk w) (nat len))"
  by (auto simp: ftruncate_def next_fault_def split: list.splits option.splits if_splits)

lemma pread_eff:
  "pread w fl n off = (r, w') \<Longrightarrow>
     pages w' = pages w \<and> next_addr w' = next_addr w \<and> ghost_mem w' = ghost_mem w \<and>
     disk w' = disk w \<and>
     (case r of Inl e \<Rightarrow> True | Inr bs \<Rightarrow> fd_readable fl \<and> bs = take n (drop off (disk w)))"
  by (auto simp: pread_def next_fault_def split: list.splits option.splits if_splits)

lemma drop_os_cache_if: "(if b then drop_os_cache w else w) = w"
  by (simp add: drop_os_cache_def)

lemma cache_flush_page_eff:
  assumes "pages w p = Some e" "cache_flush_page h p w = (rc, w')" "0 \<le> size_h h" "p \<noteq> NULL"
  shows "next_addr w' = next_addr w \<and> ghost_mem w' = ghost_mem w \<and>
    (case rc of
       None \<Rightarrow> pages w' = (pages w)(p \<mapsto> e\<lparr>dirty := False\<rparr>) \<and>
          disk w' = (if dirty e
             then disk_truncate (flush_disk h e (disk w)) (nat (size_h h))
             else disk w)
     | Some er \<Rightarrow> pages w' = pages w \<and> dirty e \<and>
          (disk w' = disk w \<or> disk w' = flush_disk h e (disk w)))"
proof (cases "dirty e")
  case False
  with assms have "rc = None" "w' = w"
    by (auto simp: cache_flush_page_def deref_def)
  with False assms(1) show ?thesis by (auto simp: fun_upd_idem)
next
  case True
  obtain r1 w1 where pw: "pwrite w (flags h) (take (page_size (cache h)) (data e))
      (page_no e * page_size (cache h)) = (r1, w1)"
    by (cases "pwrite w (flags h) (take (page_size (cache h)) (data e))
      (page_no e * page_size (cache h))")
  note e1 = pwrite_eff [OF pw]
  show ?thesis
  proof (cases r1)
    case (Inl er)
    with True assms pw have "rc = Some er" "w' = w1"
      by (auto simp: cache_flush_page_def deref_def pwrite_fullpage_def)
    with e1 Inl True show ?thesis by simp
  next
    case (Inr n)
    obtain r2 w2 where ft: "ftruncate w1 (flags h) (size_h h) = (r2, w2)"
      by (cases "ftruncate w1 (flags h) (size_h h)")
    note e2 = ftruncate_eff [OF ft]
    show ?thesis
    proof (cases r2)
      case (Some er)
      with Inr True assms pw ft have "rc = Some er" "w' = w2"
        by (auto simp: cache_flush_page_def deref_def pwrite_fullpage_def drop_os_cache_if)
      with e1 e2 Inr Some True show ?thesis by (simp add: flush_disk_def)
    next
      case None
      with e1 e2 assms(1) have "deref w2 p = e" by (simp add: deref_def)
      with None Inr True assms pw ft have "rc = None"
        "w' = w2\<lparr>pages := (pages w2)(p \<mapsto> e\<lparr>dirty := False\<rparr>)\<rparr>"
        by (auto simp: cache_flush_page_def deref_def pwrite_fullpage_def drop_os_cache_if)
      with e1 e2 Inr None True show ?thesis by (simp add: flush_disk_def)
    qed
  qed
qed

lemma safe_ok: "safe h w \<Longrightarrow> ht_ok (resident (cache h))"
  by (simp add: safe_def)

lemma safe_lookup:
  "safe h w \<Longrightarrow> lookup (resident (cache h)) k a \<Longrightarrow>
     \<exists>e. pages w a = Some e \<and> page_no e = k \<and> q e \<noteq> Q_NONE"
  by (simp add: safe_def)

lemma safe_distinct: "safe h w \<Longrightarrow> distinct (a1in (cache h) @ am (cache h))"
  by (simp add: safe_def)

lemma safe_a1in:
  "safe h w \<Longrightarrow> a \<in> set (a1in (cache h)) \<Longrightarrow> \<exists>e. pages w a = Some e \<and> q e = Q_A1IN"
  by (simp add: safe_def)

lemma safe_am:
  "safe h w \<Longrightarrow> a \<in> set (am (cache h)) \<Longrightarrow> \<exists>e. pages w a = Some e \<and> q e = Q_AM"
  by (simp add: safe_def)

lemma safe_entry:
  "safe h w \<Longrightarrow> pages w a = Some e \<Longrightarrow>
     0 < a \<and> a < next_addr w \<and> entry_ok (page_size (cache h)) e \<and>
     lookup (resident (cache h)) (page_no e) a"
  by (simp add: safe_def)

lemma safe_misc: "safe h w \<Longrightarrow> 0 < page_size (cache h) \<and> 0 \<le> pos h \<and> 0 \<le> size_h h"
  by (simp add: safe_def)

lemma safe_live:
  assumes "safe h w" "a \<in> set (a1in (cache h) @ am (cache h))"
  shows "\<exists>e. pages w a = Some e \<and> a \<noteq> NULL \<and> entry_ok (page_size (cache h)) e \<and>
    lookup (resident (cache h)) (page_no e) a"
proof -
  from assms(2) have "a \<in> set (a1in (cache h)) \<or> a \<in> set (am (cache h))" by simp
  with safe_a1in [OF assms(1)] safe_am [OF assms(1)]
  obtain e where e: "pages w a = Some e" by blast
  from safe_entry [OF assms(1) e] e show ?thesis by simp
qed

lemma page_list_pop_back_eq:
  "l \<noteq> [] \<Longrightarrow> last l \<noteq> NULL \<Longrightarrow> distinct l \<Longrightarrow> page_list_pop_back l = (last l, butlast l)"
proof -
  assume l: "l \<noteq> []" "last l \<noteq> NULL" "distinct l"
  then obtain ys y where ly: "l = ys @ [y]" by (cases l rule: rev_cases) auto
  with l have "remove1 y (ys @ [y]) = ys" by (simp add: remove1_append)
  with l ly show ?thesis
    by (cases ys) (simp_all add: page_list_pop_back_def page_list_remove_def Let_def)
qed

lemma evict_from_am_eff:
  assumes s: "safe h w" and ev: "evict_from_am h w = Some (rc, h', w')"
  shows "(rc = None \<and> h' = h \<and> w' = w) \<or> evicted h w rc h' w'"
proof (cases "am (cache h) = []")
  case True
  with ev show ?thesis by (simp add: evict_from_am_def page_list_pop_back_def)
next
  case False
  define v where "v = last (am (cache h))"
  define t where "t = resident (cache h)"
  from False have vin: "v \<in> set (a1in (cache h) @ am (cache h))" by (simp add: v_def)
  from safe_distinct [OF s] safe_misc [OF s] safe_ok [OF s]
  have d: "distinct (a1in (cache h) @ am (cache h))" and s0: "0 \<le> size_h h"
    and ok: "ht_ok t"
    unfolding t_def by simp_all
  from safe_live [OF s vin] obtain e where e: "pages w v = Some e" and v0: "v \<noteq> NULL"
    and lk: "lookup t (page_no e) v" unfolding t_def by metis
  then obtain j where o: "occ t j (page_no e)" and vj: "vals t ! j = v"
    unfolding lookup_def by blast
  note lt = lookup_tomb [OF ok o] and okt = ht_ok_tomb [OF ok, of j]
  from d False v0 have pb: "page_list_pop_back (am (cache h)) = (v, butlast (am (cache h)))"
    unfolding v_def by (intro page_list_pop_back_eq) auto
  have del: "ht_del t (page_no e) = Some (tomb t j)" by (rule ht_del_found [OF ok o])
  define c2 where "c2 = (cache h)\<lparr>am := butlast (am (cache h)), am_sz := am_sz (cache h) - 1,
     resident := tomb t j\<rparr>"
  obtain fl w1 where fl: "cache_flush_page h v w = (fl, w1)" by (cases "cache_flush_page h v w")
  have fl2: "cache_flush_page (h\<lparr>cache := c2\<rparr>) v w = (fl, w1)"
    using fl by (subst cache_flush_page_cong [of h]) (simp_all add: static_eq_def c2_def)
  note eff = cache_flush_page_eff [OF e fl s0 v0]
  have rm: "remove1 v (am (cache h)) = butlast (am (cache h))"
    using False d unfolding v_def by (cases "am (cache h)" rule: rev_cases) (auto simp: remove1_append)
  have rm1: "remove1 v (a1in (cache h)) = a1in (cache h)"
    using d False unfolding v_def by (intro remove1_idem) auto
  show ?thesis
  proof (cases fl)
    case None
    with ev pb del fl2 e v0 have r: "rc = None" "h' = h\<lparr>cache := c2\<rparr>"
      "w' = w1\<lparr>pages := (pages w1)(v := None)\<rparr>"
      by (auto simp: evict_from_am_def deref_def t_def [symmetric] c2_def cache_free_page_def Let_def)
    have "evicted h w rc h' w'"
      unfolding evicted_def
      apply (rule exI [of _ v], rule exI [of _ e], rule exI [of _ fl], rule exI [of _ w1])
      using vin e fl None r rm rm1 lt okt
      by (simp add: t_def [symmetric] static_eq_def c2_def)
    then show ?thesis ..
  next
    case (Some er)
    with eff have pw: "pages w1 = pages w" by simp
    from Some ev pb del fl2 e v0 pw obtain t' where
      put: "ht_put (tomb t j) (page_no e) v = Some t'" and
      r: "rc = Some er" "h' = h\<lparr>cache := c2\<lparr>am := v # butlast (am (cache h)),
           am_sz := am_sz c2 + 1, resident := t'\<rparr>\<rparr>" "w' = w1"
      by (auto simp: evict_from_am_def deref_def t_def [symmetric] c2_def page_list_push_front_def
          Let_def split: option.splits)
    have st: "set (v # butlast (am (cache h))) = set (am (cache h))"
      using False unfolding v_def by (cases "am (cache h)" rule: rev_cases) auto
    have di: "distinct (a1in (cache h) @ v # butlast (am (cache h)))"
      using False d unfolding v_def by (cases "am (cache h)" rule: rev_cases) auto
    have eqv: "lookup t (page_no e) a \<longleftrightarrow> a = v" for a
      using lookup_fun [OF ok lk] lk by blast
    have pl: "ht_ok t' \<and> (\<forall>k a. lookup t' k a \<longleftrightarrow> lookup t k a)"
      using ht_put_lookup [OF okt put] lt eqv by simp
    have "evicted h w rc h' w'"
      unfolding evicted_def
      apply (rule exI [of _ v], rule exI [of _ e], rule exI [of _ fl], rule exI [of _ w1])
      using vin e fl Some r st di pl
      by (simp add: t_def [symmetric] static_eq_def c2_def)
    then show ?thesis ..
  qed
qed

lemma ghost_step_fields:
  assumes "ghost_step c c'"
  shows "a1in c' = a1in c" "am c' = am c" "resident c' = resident c"
    "page_size c' = page_size c" "capacity c' = capacity c" "kin c' = kin c" "kout c' = kout c"
    "am_cap c' = am_cap c" "a1in_sz c' = a1in_sz c" "am_sz c' = am_sz c"
  using assms unfolding ghost_step_def by (cases c, cases c', simp)+

lemma evict_from_a1in_eff:
  assumes s: "safe h w" and ev: "evict_from_a1in h w = Some (rc, h', w')"
  shows "(rc = None \<and> h' = h \<and> w' = w) \<or> evicted h w rc h' w'"
proof (cases "a1in (cache h) = []")
  case True
  with ev show ?thesis by (simp add: evict_from_a1in_def page_list_pop_back_def)
next
  case False
  define v where "v = last (a1in (cache h))"
  define t where "t = resident (cache h)"
  from False have vin: "v \<in> set (a1in (cache h) @ am (cache h))" by (simp add: v_def)
  from safe_distinct [OF s] safe_misc [OF s] safe_ok [OF s]
  have d: "distinct (a1in (cache h) @ am (cache h))" and s0: "0 \<le> size_h h"
    and ok: "ht_ok t"
    unfolding t_def by simp_all
  from safe_live [OF s vin] obtain e where e: "pages w v = Some e" and v0: "v \<noteq> NULL"
    and lk: "lookup t (page_no e) v" unfolding t_def by metis
  then obtain j where o: "occ t j (page_no e)" and vj: "vals t ! j = v"
    unfolding lookup_def by blast
  note lt = lookup_tomb [OF ok o] and okt = ht_ok_tomb [OF ok, of j]
  from d False v0 have pb: "page_list_pop_back (a1in (cache h)) = (v, butlast (a1in (cache h)))"
    unfolding v_def by (intro page_list_pop_back_eq) auto
  have del: "ht_del t (page_no e) = Some (tomb t j)" by (rule ht_del_found [OF ok o])
  define c2 where "c2 = (cache h)\<lparr>a1in := butlast (a1in (cache h)),
     a1in_sz := a1in_sz (cache h) - 1, resident := tomb t j\<rparr>"
  obtain fl w1 where fl: "cache_flush_page h v w = (fl, w1)" by (cases "cache_flush_page h v w")
  have fl2: "cache_flush_page (h\<lparr>cache := c2\<rparr>) v w = (fl, w1)"
    using fl by (subst cache_flush_page_cong [of h]) (simp_all add: static_eq_def c2_def)
  note eff = cache_flush_page_eff [OF e fl s0 v0]
  have rm: "remove1 v (a1in (cache h)) = butlast (a1in (cache h))"
    using False d unfolding v_def
    by (cases "a1in (cache h)" rule: rev_cases) (auto simp: remove1_append)
  have rm1: "remove1 v (am (cache h)) = am (cache h)"
    using d last_in_set [OF False] unfolding v_def by (intro remove1_idem) auto
  show ?thesis
  proof (cases fl)
    case None
    with ev pb del fl2 e v0 obtain rc' c3 w2 where
      g: "cache_add_ghost c2 (page_no (deref w1 v)) w1 = Some (rc', c3, w2)" and
      r: "rc = None" "h' = h\<lparr>cache := c3\<rparr>" "w' = w2\<lparr>pages := (pages w2)(v := None)\<rparr>"
      by (auto simp: evict_from_a1in_def deref_def t_def [symmetric] c2_def cache_free_page_def
          Let_def split: option.splits)
    from cache_add_ghost_eff [OF g] have gs: "ghost_step c2 c3" and es: "env_step w1 w2" by auto
    note f = ghost_step_fields [OF gs]
    have "evicted h w rc h' w'"
      unfolding evicted_def
      apply (rule exI [of _ v], rule exI [of _ e], rule exI [of _ fl], rule exI [of _ w1])
      using vin e fl None r rm rm1 f es lt okt
      by (simp add: t_def [symmetric] static_eq_def c2_def env_step_def)
    then show ?thesis ..
  next
    case (Some er)
    with eff have pw: "pages w1 = pages w" by simp
    from Some ev pb del fl2 e v0 pw obtain t' where
      put: "ht_put (tomb t j) (page_no e) v = Some t'" and
      r: "rc = Some er" "h' = h\<lparr>cache := c2\<lparr>a1in := v # butlast (a1in (cache h)),
           a1in_sz := a1in_sz c2 + 1, resident := t'\<rparr>\<rparr>" "w' = w1"
      by (auto simp: evict_from_a1in_def deref_def t_def [symmetric] c2_def
          page_list_push_front_def Let_def split: option.splits)
    have st: "set (v # butlast (a1in (cache h))) = set (a1in (cache h))"
      using False unfolding v_def by (cases "a1in (cache h)" rule: rev_cases) auto
    have di: "distinct (v # butlast (a1in (cache h)) @ am (cache h))"
      using False d unfolding v_def by (cases "a1in (cache h)" rule: rev_cases) auto
    have eqv: "lookup t (page_no e) a \<longleftrightarrow> a = v" for a
      using lookup_fun [OF ok lk] lk by blast
    have pl: "ht_ok t' \<and> (\<forall>k a. lookup t' k a \<longleftrightarrow> lookup t k a)"
      using ht_put_lookup [OF okt put] lt eqv by simp
    have "evicted h w rc h' w'"
      unfolding evicted_def
      apply (rule exI [of _ v], rule exI [of _ e], rule exI [of _ fl], rule exI [of _ w1])
      using vin e fl Some r st di pl
      by (simp add: t_def [symmetric] static_eq_def c2_def)
    then show ?thesis ..
  qed
qed

lemma frame_refl [simp]: "frame h w h w"
  by (simp add: frame_def)

lemma frame_trans:
  assumes "frame h w h1 w1" "frame h1 w1 h2 w2"
  shows "frame h w h2 w2"
proof -
  from assms have sub: "set (a1in (cache h1) @ am (cache h1)) \<subseteq> set (a1in (cache h) @ am (cache h))"
    unfolding frame_def by blast
  have "a \<notin> set (a1in (cache h) @ am (cache h)) \<Longrightarrow>
        pages w2 a = pages w a \<and>
        (\<forall>k. lookup (resident (cache h)) k a \<longrightarrow> lookup (resident (cache h2)) k a)" for a
  proof -
    assume a: "a \<notin> set (a1in (cache h) @ am (cache h))"
    with sub have a1: "a \<notin> set (a1in (cache h1) @ am (cache h1))" by blast
    from assms(1) a have 1: "pages w1 a = pages w a"
      "\<forall>k. lookup (resident (cache h)) k a \<longrightarrow> lookup (resident (cache h1)) k a"
      unfolding frame_def by blast+
    from assms(2) a1 have 2: "pages w2 a = pages w1 a"
      "\<forall>k. lookup (resident (cache h1)) k a \<longrightarrow> lookup (resident (cache h2)) k a"
      unfolding frame_def by blast+
    from 1 2 show ?thesis by simp
  qed
  moreover from assms have "static_eq h h2" unfolding frame_def using static_eq_trans by blast
  moreover from assms sub have "set (a1in (cache h2) @ am (cache h2)) \<subseteq> set (a1in (cache h) @ am (cache h))"
    unfolding frame_def by blast
  moreover from assms have "next_addr w \<le> next_addr w2" unfolding frame_def by simp
  moreover from assms have "\<forall>k a. lookup (resident (cache h2)) k a \<longrightarrow> lookup (resident (cache h)) k a"
    unfolding frame_def by blast
  ultimately show ?thesis unfolding frame_def by blast
qed

lemma evicted_safe:
  assumes s: "safe h w" and ev: "evicted h w rc h' w'"
  shows "safe h' w' \<and> frame h w h' w'"
proof -
  let ?A = "a1in (cache h)" and ?B = "am (cache h)" and ?t = "resident (cache h)"
  let ?A' = "a1in (cache h')" and ?B' = "am (cache h')" and ?t' = "resident (cache h')"
  from ev obtain v e fl w1 where vin: "v \<in> set (?A @ ?B)" and e: "pages w v = Some e"
    and fl: "cache_flush_page h v w = (fl, w1)" and st: "static_eq h h'" and ok': "ht_ok ?t'"
    and alt: "(fl = None \<and> rc = None \<and> ?A' = remove1 v ?A \<and> ?B' = remove1 v ?B \<and>
         (\<forall>k a. lookup ?t' k a \<longleftrightarrow> k \<noteq> page_no e \<and> lookup ?t k a) \<and>
         pages w' = (pages w1)(v := None) \<and> disk w' = disk w1 \<and> next_addr w1 \<le> next_addr w') \<or>
        (\<exists>er. fl = Some er \<and> rc = Some er \<and>
         (\<forall>k a. lookup ?t' k a \<longleftrightarrow> lookup ?t k a) \<and>
         set ?A' = set ?A \<and> set ?B' = set ?B \<and> distinct (?A' @ ?B') \<and> w' = w1)"
    unfolding evicted_def by blast
  note ok = safe_ok [OF s] and d = safe_distinct [OF s] and m = safe_misc [OF s]
  from safe_entry [OF s e] have v0: "v \<noteq> NULL" and lk: "lookup ?t (page_no e) v" by simp_all
  note eff = cache_flush_page_eff [OF e fl _ v0]
  from m eff have na: "next_addr w1 = next_addr w" by simp
  from st m have m': "0 < page_size (cache h') \<and> 0 \<le> pos h' \<and> 0 \<le> size_h h'"
    and ps: "page_size (cache h') = page_size (cache h)"
    by (simp_all add: static_eq_def)
  from alt show ?thesis
  proof (elim disjE conjE exE)
    assume f: "fl = None" and A': "?A' = remove1 v ?A" and B': "?B' = remove1 v ?B"
      and lk': "\<forall>k a. lookup ?t' k a \<longleftrightarrow> k \<noteq> page_no e \<and> lookup ?t k a"
      and pg: "pages w' = (pages w1)(v := None)" and nx: "next_addr w1 \<le> next_addr w'"
    from f eff m pg have pw: "pages w' = (pages w)(v := None)" by simp
    have keep: "a \<noteq> v \<Longrightarrow> pages w' a = pages w a" for a by (simp add: pw)
    have gone: "pages w' a = Some x \<Longrightarrow> a \<noteq> v \<and> pages w a = Some x" for a x
      by (cases "a = v") (simp_all add: pw)
    have c2: "\<exists>x. pages w' a = Some x \<and> page_no x = k \<and> q x \<noteq> Q_NONE" if l: "lookup ?t' k a" for k a
    proof -
      from l lk' have k: "k \<noteq> page_no e" and l0: "lookup ?t k a" by simp_all
      from safe_lookup [OF s l0] obtain x where x: "pages w a = Some x" "page_no x = k"
        "q x \<noteq> Q_NONE" by blast
      with k e have "a \<noteq> v" by auto
      with x keep show ?thesis by simp
    qed
    have c3: "distinct (?A' @ ?B')" using d unfolding A' B'
      by (auto dest: notin_set_remove1 simp: disjoint_iff)
    have c4: "\<exists>x. pages w' a = Some x \<and> q x = Q_A1IN" if "a \<in> set ?A'" for a
    proof -
      from that d have "a \<in> set ?A" "a \<noteq> v" unfolding A' by (auto dest: notin_set_remove1)
      with safe_a1in [OF s] keep show ?thesis by simp
    qed
    have c5: "\<exists>x. pages w' a = Some x \<and> q x = Q_AM" if "a \<in> set ?B'" for a
    proof -
      from that d have "a \<in> set ?B" "a \<noteq> v" unfolding B' by (auto dest: notin_set_remove1)
      with safe_am [OF s] keep show ?thesis by simp
    qed
    have c6: "0 < a \<and> a < next_addr w' \<and> entry_ok (page_size (cache h')) x \<and>
              lookup ?t' (page_no x) a" if "pages w' a = Some x" for a x
    proof -
      from gone [OF that] have av: "a \<noteq> v" and x: "pages w a = Some x" by simp_all
      note se = safe_entry [OF s x]
      have "page_no x \<noteq> page_no e"
      proof
        assume "page_no x = page_no e"
        with se have "lookup ?t (page_no e) a" by simp
        from lookup_fun [OF ok this lk] av show False by simp
      qed
      with se lk' na nx ps show ?thesis by simp
    qed
    have sf: "safe h' w'"
      unfolding safe_def using ok' c2 c3 c4 c5 c6 m' by blast
    have "frame h w h' w'"
      unfolding frame_def
    proof (intro conjI allI impI)
      show "static_eq h h'" by (rule st)
      show "set (?A' @ ?B') \<subseteq> set (?A @ ?B)" unfolding A' B'
        using set_remove1_subset [of v ?A] set_remove1_subset [of v ?B] by auto
      show "next_addr w \<le> next_addr w'" using na nx by simp
    next
      fix a assume a: "a \<notin> set (?A @ ?B)"
      with vin have av: "a \<noteq> v" by auto
      then show "pages w' a = pages w a" by (rule keep)
      fix k assume l: "lookup ?t k a"
      have "k \<noteq> page_no e"
      proof
        assume "k = page_no e"
        with l lookup_fun [OF ok _ lk] av show False by simp
      qed
      with l lk' show "lookup ?t' k a" by simp
    next
      fix k a assume "lookup ?t' k a"
      with lk' show "lookup ?t k a" by simp
    qed
    with sf show ?thesis ..
  next
    fix er assume f: "fl = Some er" and lk': "\<forall>k a. lookup ?t' k a \<longleftrightarrow> lookup ?t k a"
      and A': "set ?A' = set ?A" and B': "set ?B' = set ?B" and d': "distinct (?A' @ ?B')"
      and w': "w' = w1"
    from f eff m w' have pw: "pages w' = pages w" by simp
    from na w' have nx: "next_addr w' = next_addr w" by simp
    have sf: "safe h' w'"
      unfolding safe_def pw nx ps
      using ok' lk' A' B' d' m' m safe_lookup [OF s] safe_a1in [OF s] safe_am [OF s]
        safe_entry [OF s]
      by simp
    have "frame h w h' w'"
      unfolding frame_def using st A' B' pw nx lk' by simp
    with sf show ?thesis ..
  qed
qed

lemma a1in_loop_lift:
  assumes step: "\<And>h w rc h' w'. I h w \<Longrightarrow>
      evict_from_am h w = Some (rc, h', w') \<or> evict_from_a1in h w = Some (rc, h', w') \<Longrightarrow>
      I h' w' \<and> R h w h' w'"
    and refl: "\<And>h w. R h w h w"
    and trans: "\<And>h w h1 w1 h2 w2. R h w h1 w1 \<Longrightarrow> R h1 w1 h2 w2 \<Longrightarrow> R h w h2 w2"
    and run: "ensure_space_for_a1in_loop h w = Some r" and i: "I h w"
  shows "I (fst (snd r)) (snd (snd r)) \<and> R h w (fst (snd r)) (snd (snd r))"
proof -
  have "I h w \<longrightarrow> I (fst (snd r)) (snd (snd r)) \<and> R h w (fst (snd r)) (snd (snd r))"
  proof (rule ensure_space_for_a1in_loop.raw_induct [where P = "\<lambda>h w r.
      I h w \<longrightarrow> I (fst (snd r)) (snd (snd r)) \<and> R h w (fst (snd r)) (snd (snd r))", OF _ run],
      goal_cases)
    case (1 loop h w r)
    show ?case
    proof
      assume i: "I h w"
      show "I (fst (snd r)) (snd (snd r)) \<and> R h w (fst (snd r)) (snd (snd r))"
      proof (cases "a1in_sz (cache h) + am_sz (cache h) \<ge> capacity (cache h)")
        case False
        with 1(2) i refl show ?thesis by auto
      next
        case True
        let ?e = "if am_sz (cache h) > 0 then evict_from_am h w else evict_from_a1in h w"
        from True 1(2) obtain rc h1 w1 where e: "?e = Some (rc, h1, w1)"
          by (cases ?e) (auto split: if_splits)
        then have "evict_from_am h w = Some (rc, h1, w1) \<or> evict_from_a1in h w = Some (rc, h1, w1)"
          by (auto split: if_splits)
        from step [OF i this] have i1: "I h1 w1" and r1: "R h w h1 w1" by simp_all
        show ?thesis
        proof (cases rc)
          case (Some er)
          with True 1(2) e have "r = (Some er, h1, w1)" by (simp split: if_splits)
          with i1 r1 show ?thesis by simp
        next
          case None
          with True 1(2) e have "loop h1 w1 = Some r" by (simp split: if_splits)
          from 1(1) [OF this] i1 have "I (fst (snd r)) (snd (snd r))"
            "R h1 w1 (fst (snd r)) (snd (snd r))" by simp_all
          with trans [OF r1] show ?thesis by blast
        qed
      qed
    qed
  qed
  with i show ?thesis by simp
qed

lemma am_loop1_lift:
  assumes step: "\<And>h w rc h' w'. I h w \<Longrightarrow>
      evict_from_am h w = Some (rc, h', w') \<or> evict_from_a1in h w = Some (rc, h', w') \<Longrightarrow>
      I h' w' \<and> R h w h' w'"
    and refl: "\<And>h w. R h w h w"
    and trans: "\<And>h w h1 w1 h2 w2. R h w h1 w1 \<Longrightarrow> R h1 w1 h2 w2 \<Longrightarrow> R h w h2 w2"
    and run: "ensure_space_for_am_loop1 h w = Some r" and i: "I h w"
  shows "I (fst (snd r)) (snd (snd r)) \<and> R h w (fst (snd r)) (snd (snd r))"
proof -
  have "I h w \<longrightarrow> I (fst (snd r)) (snd (snd r)) \<and> R h w (fst (snd r)) (snd (snd r))"
  proof (rule ensure_space_for_am_loop1.raw_induct [where P = "\<lambda>h w r.
      I h w \<longrightarrow> I (fst (snd r)) (snd (snd r)) \<and> R h w (fst (snd r)) (snd (snd r))", OF _ run],
      goal_cases)
    case (1 loop h w r)
    show ?case
    proof
      assume i: "I h w"
      show "I (fst (snd r)) (snd (snd r)) \<and> R h w (fst (snd r)) (snd (snd r))"
      proof (cases "am_sz (cache h) \<ge> am_cap (cache h)")
        case False
        with 1(2) i refl show ?thesis by auto
      next
        case True
        from True 1(2) obtain rc h1 w1 where e: "evict_from_am h w = Some (rc, h1, w1)"
          by (cases "evict_from_am h w") auto
        then have "evict_from_am h w = Some (rc, h1, w1) \<or> evict_from_a1in h w = Some (rc, h1, w1)"
          by simp
        from step [OF i this] have i1: "I h1 w1" and r1: "R h w h1 w1" by simp_all
        show ?thesis
        proof (cases rc)
          case (Some er)
          with True 1(2) e have "r = (Some er, h1, w1)" by simp
          with i1 r1 show ?thesis by simp
        next
          case None
          with True 1(2) e have "loop h1 w1 = Some r" by simp
          from 1(1) [OF this] i1 have "I (fst (snd r)) (snd (snd r))"
            "R h1 w1 (fst (snd r)) (snd (snd r))" by simp_all
          with trans [OF r1] show ?thesis by blast
        qed
      qed
    qed
  qed
  with i show ?thesis by simp
qed

lemma am_loop2_lift:
  assumes step: "\<And>h w rc h' w'. I h w \<Longrightarrow>
      evict_from_am h w = Some (rc, h', w') \<or> evict_from_a1in h w = Some (rc, h', w') \<Longrightarrow>
      I h' w' \<and> R h w h' w'"
    and refl: "\<And>h w. R h w h w"
    and trans: "\<And>h w h1 w1 h2 w2. R h w h1 w1 \<Longrightarrow> R h1 w1 h2 w2 \<Longrightarrow> R h w h2 w2"
    and run: "ensure_space_for_am_loop2 h w = Some r" and i: "I h w"
  shows "I (fst (snd r)) (snd (snd r)) \<and> R h w (fst (snd r)) (snd (snd r))"
proof -
  have "I h w \<longrightarrow> I (fst (snd r)) (snd (snd r)) \<and> R h w (fst (snd r)) (snd (snd r))"
  proof (rule ensure_space_for_am_loop2.raw_induct [where P = "\<lambda>h w r.
      I h w \<longrightarrow> I (fst (snd r)) (snd (snd r)) \<and> R h w (fst (snd r)) (snd (snd r))", OF _ run],
      goal_cases)
    case (1 loop h w r)
    show ?case
    proof
      assume i: "I h w"
      show "I (fst (snd r)) (snd (snd r)) \<and> R h w (fst (snd r)) (snd (snd r))"
      proof (cases "a1in_sz (cache h) + am_sz (cache h) \<ge> capacity (cache h)")
        case False
        with 1(2) i refl show ?thesis by auto
      next
        case True
        let ?e = "if a1in_sz (cache h) > 0 then evict_from_a1in h w else evict_from_am h w"
        from True 1(2) obtain rc h1 w1 where e: "?e = Some (rc, h1, w1)"
          by (cases ?e) (auto split: if_splits)
        then have "evict_from_am h w = Some (rc, h1, w1) \<or> evict_from_a1in h w = Some (rc, h1, w1)"
          by (auto split: if_splits)
        from step [OF i this] have i1: "I h1 w1" and r1: "R h w h1 w1" by simp_all
        show ?thesis
        proof (cases rc)
          case (Some er)
          with True 1(2) e have "r = (Some er, h1, w1)" by (simp split: if_splits)
          with i1 r1 show ?thesis by simp
        next
          case None
          with True 1(2) e have "loop h1 w1 = Some r" by (simp split: if_splits)
          from 1(1) [OF this] i1 have "I (fst (snd r)) (snd (snd r))"
            "R h1 w1 (fst (snd r)) (snd (snd r))" by simp_all
          with trans [OF r1] show ?thesis by blast
        qed
      qed
    qed
  qed
  with i show ?thesis by simp
qed

lemma ensure_space_for_a1in_lift:
  assumes step: "\<And>h w rc h' w'. I h w \<Longrightarrow>
      evict_from_am h w = Some (rc, h', w') \<or> evict_from_a1in h w = Some (rc, h', w') \<Longrightarrow>
      I h' w' \<and> R h w h' w'"
    and refl: "\<And>h w. R h w h w"
    and trans: "\<And>h w h1 w1 h2 w2. R h w h1 w1 \<Longrightarrow> R h1 w1 h2 w2 \<Longrightarrow> R h w h2 w2"
    and run: "ensure_space_for_a1in h w = Some (rc, h', w')" and i: "I h w"
  shows "I h' w' \<and> R h w h' w'"
proof (cases "a1in_sz (cache h) \<ge> kin (cache h)")
  case True
  with run have "evict_from_a1in h w = Some (rc, h', w')" by (simp add: ensure_space_for_a1in_def)
  with step [OF i] show ?thesis by blast
next
  case False
  with run have "ensure_space_for_a1in_loop h w = Some (rc, h', w')"
    by (simp add: ensure_space_for_a1in_def)
  from a1in_loop_lift [of I R, OF step refl trans this i] show ?thesis by simp
qed

lemma ensure_space_for_am_lift:
  assumes step: "\<And>h w rc h' w'. I h w \<Longrightarrow>
      evict_from_am h w = Some (rc, h', w') \<or> evict_from_a1in h w = Some (rc, h', w') \<Longrightarrow>
      I h' w' \<and> R h w h' w'"
    and refl: "\<And>h w. R h w h w"
    and trans: "\<And>h w h1 w1 h2 w2. R h w h1 w1 \<Longrightarrow> R h1 w1 h2 w2 \<Longrightarrow> R h w h2 w2"
    and run: "ensure_space_for_am h w = Some (rc, h', w')" and i: "I h w"
  shows "I h' w' \<and> R h w h' w'"
proof -
  from run obtain rc1 h1 w1 where l1: "ensure_space_for_am_loop1 h w = Some (rc1, h1, w1)"
    by (cases "ensure_space_for_am_loop1 h w") (auto simp: ensure_space_for_am_def)
  from am_loop1_lift [of I R, OF step refl trans l1 i] have i1: "I h1 w1" and r1: "R h w h1 w1"
    by simp_all
  show ?thesis
  proof (cases rc1)
    case (Some er)
    with run l1 have "rc = Some er" "h' = h1" "w' = w1" by (simp_all add: ensure_space_for_am_def)
    with i1 r1 show ?thesis by simp
  next
    case None
    with run l1 have l2: "ensure_space_for_am_loop2 h1 w1 = Some (rc, h', w')"
      by (simp add: ensure_space_for_am_def)
    from am_loop2_lift [of I R, OF step refl trans l2 i1] have "I h' w'" "R h1 w1 h' w'"
      by simp_all
    with trans [OF r1] show ?thesis by blast
  qed
qed

lemma safe_evict_step:
  assumes "safe h w"
    "evict_from_am h w = Some (rc, h', w') \<or> evict_from_a1in h w = Some (rc, h', w')"
  shows "safe h' w' \<and> frame h w h' w'"
proof -
  from assms evict_from_am_eff [OF assms(1)] evict_from_a1in_eff [OF assms(1)]
  have "(rc = None \<and> h' = h \<and> w' = w) \<or> evicted h w rc h' w'" by blast
  with evicted_safe [OF assms(1)] assms(1) show ?thesis by auto
qed

lemma ensure_space_for_a1in_safe:
  "safe h w \<Longrightarrow> ensure_space_for_a1in h w = Some (rc, h', w') \<Longrightarrow> safe h' w' \<and> frame h w h' w'"
  by (rule ensure_space_for_a1in_lift [of safe frame, OF safe_evict_step frame_refl frame_trans])

lemma ensure_space_for_am_safe:
  "safe h w \<Longrightarrow> ensure_space_for_am h w = Some (rc, h', w') \<Longrightarrow> safe h' w' \<and> frame h w h' w'"
  by (rule ensure_space_for_am_lift [of safe frame, OF safe_evict_step frame_refl frame_trans])

section \<open>The page lookup\<close>

lemma load_page_eff:
  assumes "load_page h pn w = (r, w')"
  shows "disk w' = disk w \<and> next_addr w \<le> next_addr w' \<and>
    (case r of Inl e \<Rightarrow> pages w' = pages w
     | Inr p \<Rightarrow> p \<noteq> NULL \<and> p = next_addr w \<and> p < next_addr w' \<and>
         pages w' = (pages w)(p \<mapsto> loaded (page_size (cache h)) pn (disk w)))"
proof -
  obtain p w1 where a1: "alloc w = (p, w1)" by (cases "alloc w")
  obtain b w2 where a2: "alloc w1 = (b, w2)" by (cases "alloc w1")
  obtain r3 w3 where pr: "pread w2 (flags h) (page_size (cache h)) (pn * page_size (cache h)) = (r3, w3)"
    by (cases "pread w2 (flags h) (page_size (cache h)) (pn * page_size (cache h))")
  note e1 = alloc_eff [OF a1] and e2 = alloc_eff [OF a2] and e3 = pread_eff [OF pr]
  show ?thesis
  proof (cases "p = NULL")
    case True
    with assms a1 have "r = Inl ENOMEM" "w' = w1" by (auto simp: load_page_def Let_def)
    with e1 show ?thesis by simp
  next
    case p: False
    show ?thesis
    proof (cases "b = NULL")
      case True
      with p assms a1 a2 have "r = Inl ENOMEM" "w' = w2" by (auto simp: load_page_def Let_def)
      with e1 e2 show ?thesis by simp
    next
      case b: False
      show ?thesis
      proof (cases r3)
        case (Inl er)
        with p b assms a1 a2 pr have "r = Inl er" "w' = w3"
          by (auto simp: load_page_def Let_def pread_fullpage_def)
        with e1 e2 e3 show ?thesis by simp
      next
        case (Inr bs)
        with e1 e2 e3 have bs: "bs = take (page_size (cache h)) (drop (pn * page_size (cache h)) (disk w))"
          by simp
        from Inr p b assms a1 a2 pr have "r = Inr p"
          "w' = w3\<lparr>pages := (pages w3)(p \<mapsto> \<lparr>page_no = pn,
              data = bs @ replicate (page_size (cache h) - length bs) 0,
              valid_len = length bs, dirty = False, q = Q_NONE\<rparr>)\<rparr>"
          by (auto simp: load_page_def Let_def pread_fullpage_def drop_os_cache_if)
        with e1 e2 e3 p b bs show ?thesis by (simp add: loaded_def)
      qed
    qed
  qed
qed

lemma entry_ok_loaded: "entry_ok ps (loaded ps pn d)"
  by (auto simp: entry_ok_def loaded_def nth_append)

lemma safe_mono:
  assumes s: "safe h w"
    and ps: "page_size (cache h') = page_size (cache h)" and po: "0 \<le> pos h'" "0 \<le> size_h h'"
    and t: "resident (cache h') = resident (cache h)"
    and l: "set (a1in (cache h')) \<subseteq> set (a1in (cache h))" "set (am (cache h')) \<subseteq> set (am (cache h))"
      "distinct (a1in (cache h') @ am (cache h'))"
    and w: "pages w' = pages w" "next_addr w \<le> next_addr w'"
  shows "safe h' w'"
proof -
  have c6: "0 < a \<and> a < next_addr w' \<and> entry_ok (page_size (cache h')) x \<and>
       lookup (resident (cache h')) (page_no x) a" if "pages w' a = Some x" for a x
    using safe_entry [OF s, of a x] that w ps t by auto
  have c4: "\<exists>x. pages w' a = Some x \<and> q x = Q_A1IN" if "a \<in> set (a1in (cache h'))" for a
    using safe_a1in [OF s, of a] that l w by auto
  have c5: "\<exists>x. pages w' a = Some x \<and> q x = Q_AM" if "a \<in> set (am (cache h'))" for a
    using safe_am [OF s, of a] that l w by auto
  have c2: "\<exists>x. pages w' a = Some x \<and> page_no x = k \<and> q x \<noteq> Q_NONE"
    if "lookup (resident (cache h')) k a" for k a
    using safe_lookup [OF s, of k a] that t w by auto
  show ?thesis
    unfolding safe_def using safe_ok [OF s] safe_misc [OF s] c2 c4 c5 c6 l(3) ps po t by auto
qed

lemma safe_update:
  assumes s: "safe h w" and p: "pages w p = Some e0"
    and e1: "page_no e1 = page_no e0" "q e1 = q e0" "entry_ok (page_size (cache h)) e1"
    and w: "pages w' = (pages w)(p \<mapsto> e1)" "next_addr w \<le> next_addr w'"
  shows "safe h w'"
proof -
  have c6: "0 < a \<and> a < next_addr w' \<and> entry_ok (page_size (cache h)) x \<and>
       lookup (resident (cache h)) (page_no x) a" if "pages w' a = Some x" for a x
    using safe_entry [OF s, of a x] safe_entry [OF s p] that w e1 by (cases "a = p") auto
  have c4: "\<exists>x. pages w' a = Some x \<and> q x = Q_A1IN" if "a \<in> set (a1in (cache h))" for a
    using safe_a1in [OF s, of a] that w p e1 by (cases "a = p") auto
  have c5: "\<exists>x. pages w' a = Some x \<and> q x = Q_AM" if "a \<in> set (am (cache h))" for a
    using safe_am [OF s, of a] that w p e1 by (cases "a = p") auto
  have c2: "\<exists>x. pages w' a = Some x \<and> page_no x = k \<and> q x \<noteq> Q_NONE"
    if "lookup (resident (cache h)) k a" for k a
    using safe_lookup [OF s, of k a] that w p e1 by (cases "a = p") auto
  show ?thesis
    unfolding safe_def using safe_ok [OF s] safe_misc [OF s] safe_distinct [OF s] c2 c4 c5 c6
    by auto
qed

lemma safe_promote:
  assumes s: "safe h w" and p: "pages w p = Some e"
    and np: "p \<notin> set (a1in (cache h) @ am (cache h))"
    and ps: "page_size (cache h') = page_size (cache h)" and po: "0 \<le> pos h'" "0 \<le> size_h h'"
    and t: "resident (cache h') = resident (cache h)"
    and l: "a1in (cache h') = a1in (cache h)" "am (cache h') = p # am (cache h)"
    and w: "pages w' = (pages w)(p \<mapsto> e\<lparr>q := Q_AM\<rparr>)" "next_addr w \<le> next_addr w'"
  shows "safe h' w'"
proof -
  have c6: "0 < a \<and> a < next_addr w' \<and> entry_ok (page_size (cache h')) x \<and>
       lookup (resident (cache h')) (page_no x) a" if "pages w' a = Some x" for a x
    using safe_entry [OF s, of a x] safe_entry [OF s p] that w ps t
    by (cases "a = p") (auto simp: entry_ok_def)
  have c4: "\<exists>x. pages w' a = Some x \<and> q x = Q_A1IN" if "a \<in> set (a1in (cache h'))" for a
    using safe_a1in [OF s, of a] that w p l np by (cases "a = p") auto
  have c5: "\<exists>x. pages w' a = Some x \<and> q x = Q_AM" if "a \<in> set (am (cache h'))" for a
    using safe_am [OF s, of a] that w p l by (cases "a = p") auto
  have c2: "\<exists>x. pages w' a = Some x \<and> page_no x = k \<and> q x \<noteq> Q_NONE"
    if "lookup (resident (cache h')) k a" for k a
    using safe_lookup [OF s, of k a] that w p t by (cases "a = p") auto
  have c3: "distinct (a1in (cache h') @ am (cache h'))"
    using safe_distinct [OF s] np l by auto
  show ?thesis
    unfolding safe_def using safe_ok [OF s] safe_misc [OF s] c2 c3 c4 c5 c6 ps po t by auto
qed

lemma safe_insert:
  assumes s: "safe h w"
    and ps: "page_size (cache h') = page_size (cache h)" and po: "0 \<le> pos h'" "0 \<le> size_h h'"
    and fresh: "pages w p = None" "p \<noteq> NULL" "p < next_addr w'"
    and nx: "next_addr w \<le> next_addr w'"
    and nolk: "\<forall>a. \<not> lookup (resident (cache h)) (page_no e) a"
    and put: "ht_put (resident (cache h)) (page_no e) p = Some (resident (cache h'))"
    and eok: "entry_ok (page_size (cache h)) e"
    and pg: "pages w' = (pages w)(p \<mapsto> e)"
    and ls: "(a1in (cache h') = p # a1in (cache h) \<and> am (cache h') = am (cache h) \<and> q e = Q_A1IN) \<or>
             (a1in (cache h') = a1in (cache h) \<and> am (cache h') = p # am (cache h) \<and> q e = Q_AM)"
  shows "safe h' w'"
proof -
  note pl = ht_put_lookup [OF safe_ok [OF s] put]
  then have lk: "lookup (resident (cache h')) k a \<longleftrightarrow>
      (if k = page_no e then a = p else lookup (resident (cache h)) k a)" for k a by blast
  have np: "p \<notin> set (a1in (cache h) @ am (cache h))"
    using safe_a1in [OF s, of p] safe_am [OF s, of p] fresh by auto
  have qe: "q e \<noteq> Q_NONE" using ls by auto
  have c6: "0 < a \<and> a < next_addr w' \<and> entry_ok (page_size (cache h')) x \<and>
       lookup (resident (cache h')) (page_no x) a" if "pages w' a = Some x" for a x
  proof (cases "a = p")
    case True
    with that pg fresh eok ps lk show ?thesis by simp
  next
    case False
    with that pg have x: "pages w a = Some x" by simp
    from safe_entry [OF s x] nolk have "page_no x \<noteq> page_no e" by auto
    with safe_entry [OF s x] nx ps lk show ?thesis by simp
  qed
  have c4: "\<exists>x. pages w' a = Some x \<and> q x = Q_A1IN" if "a \<in> set (a1in (cache h'))" for a
    using safe_a1in [OF s, of a] that pg ls np by (cases "a = p") auto
  have c5: "\<exists>x. pages w' a = Some x \<and> q x = Q_AM" if "a \<in> set (am (cache h'))" for a
    using safe_am [OF s, of a] that pg ls np by (cases "a = p") auto
  have c2: "\<exists>x. pages w' a = Some x \<and> page_no x = k \<and> q x \<noteq> Q_NONE"
    if l: "lookup (resident (cache h')) k a" for k a
  proof (cases "k = page_no e")
    case True
    with l lk have "a = p" by simp
    with pg True qe show ?thesis by simp
  next
    case False
    with l lk have l0: "lookup (resident (cache h)) k a" by simp
    from safe_lookup [OF s l0] fresh have "a \<noteq> p" by auto
    with safe_lookup [OF s l0] pg show ?thesis by simp
  qed
  have c3: "distinct (a1in (cache h') @ am (cache h'))"
    using safe_distinct [OF s] np ls by auto
  show ?thesis
    unfolding safe_def using pl safe_misc [OF s] c2 c3 c4 c5 c6 ps po by auto
qed

lemma stable_flush:
  assumes "stable J" "safe h w" "holds J h w" "pages w v = Some e"
    "cache_flush_page h v w = (fl, w1)"
  shows "holds J h w1"
proof -
  from assms(1) have "\<forall>h w v e fl w1. safe h w \<and> holds J h w \<and> pages w v = Some e \<and>
        cache_flush_page h v w = (fl, w1) \<longrightarrow> holds J h w1"
    unfolding stable_def by (elim conjE) assumption
  with assms(2-) show ?thesis by blast
qed

lemma stable_drop:
  assumes "stable J" "J fl ps sz pg d" "pg v = Some e" "\<not> dirty e"
  shows "J fl ps sz (pg(v := None)) d"
proof -
  from assms(1) have "\<forall>fl ps sz pg d v e. J fl ps sz pg d \<and> pg v = Some e \<and> \<not> dirty e \<longrightarrow>
      J fl ps sz (pg(v := None)) d"
    unfolding stable_def by (elim conjE) assumption
  with assms(2-) show ?thesis by blast
qed

lemma stable_load:
  assumes "stable J" "J fl ps sz pg d" "pg p = None" "\<forall>a e. pg a = Some e \<longrightarrow> page_no e \<noteq> pn"
  shows "J fl ps sz (pg(p \<mapsto> (loaded ps pn d)\<lparr>q := x\<rparr>)) d"
proof -
  from assms(1) have "\<forall>fl ps sz pg d p pn x. J fl ps sz pg d \<and> pg p = None \<and>
        (\<forall>a e. pg a = Some e \<longrightarrow> page_no e \<noteq> pn) \<longrightarrow>
        J fl ps sz (pg(p \<mapsto> (loaded ps pn d)\<lparr>q := x\<rparr>)) d"
    unfolding stable_def by (elim conjE) assumption
  with assms(2-) show ?thesis by blast
qed

lemma stable_retag:
  assumes "stable J" "J fl ps sz pg d" "pg p = Some e"
  shows "J fl ps sz (pg(p \<mapsto> e\<lparr>q := x\<rparr>)) d"
proof -
  from assms(1) have "\<forall>fl ps sz pg d p e x. J fl ps sz pg d \<and> pg p = Some e \<longrightarrow>
      J fl ps sz (pg(p \<mapsto> e\<lparr>q := x\<rparr>)) d"
    unfolding stable_def by (elim conjE) assumption
  with assms(2-) show ?thesis by blast
qed

lemma stable_truncate:
  assumes "stable J" "J fl ps sz pg d" "0 \<le> sz"
  shows "J fl ps sz pg (disk_truncate d (nat sz))"
proof -
  from assms(1) have "\<forall>fl ps sz pg d. J fl ps sz pg d \<and> 0 \<le> sz \<longrightarrow> J fl ps sz pg (disk_truncate d (nat sz))"
    unfolding stable_def by (elim conjE) assumption
  with assms(2-) show ?thesis by blast
qed

lemma stable_True: "stable (\<lambda>fl ps sz pg d. True)"
  by (simp add: stable_def holds_def)

lemma holds_cong:
  "page_size (cache h') = page_size (cache h) \<Longrightarrow> size_h h' = size_h h \<Longrightarrow> pages w' = pages w \<Longrightarrow>
   disk w' = disk w \<Longrightarrow> flags h' = flags h \<Longrightarrow> holds J h' w' = holds J h w"
  by (simp add: holds_def)

lemma evicted_holds:
  assumes st: "stable J" and s: "safe h w" and j: "holds J h w" and ev: "evicted h w rc h' w'"
  shows "holds J h' w'"
proof -
  let ?A = "a1in (cache h)" and ?B = "am (cache h)"
  from ev obtain v e fl w1 where vin: "v \<in> set (?A @ ?B)" and e: "pages w v = Some e"
    and fl: "cache_flush_page h v w = (fl, w1)" and se: "static_eq h h'"
    and alt: "(fl = None \<and> pages w' = (pages w1)(v := None) \<and> disk w' = disk w1) \<or>
        (\<exists>er. fl = Some er \<and> w' = w1)"
    unfolding evicted_def by blast
  from safe_entry [OF s e] have v0: "v \<noteq> NULL" by simp
  from safe_misc [OF s] have s0: "0 \<le> size_h h" by simp
  note eff = cache_flush_page_eff [OF e fl s0 v0]
  from stable_flush [OF st s j e fl] have j1: "holds J h w1" .
  from se have eq: "page_size (cache h') = page_size (cache h)" "size_h h' = size_h h"
    "flags h' = flags h"
    by (simp_all add: static_eq_def)
  from alt show ?thesis
  proof (elim disjE conjE exE)
    assume f: "fl = None" and pg: "pages w' = (pages w1)(v := None)" and dk: "disk w' = disk w1"
    from f eff have "pages w1 v = Some (e\<lparr>dirty := False\<rparr>)" by simp
    have "\<not> dirty (e\<lparr>dirty := False\<rparr>)" by simp
    from stable_drop [OF st j1 [unfolded holds_def] \<open>pages w1 v = Some (e\<lparr>dirty := False\<rparr>)\<close> this]
    show ?thesis unfolding holds_def eq pg dk .
  next
    fix er assume "w' = w1"
    with j1 eq show ?thesis by (simp add: holds_def)
  qed
qed

lemma evict_step_holds:
  assumes st: "stable J" and i: "safe h w \<and> holds J h w"
    and ev: "evict_from_am h w = Some (rc, h', w') \<or> evict_from_a1in h w = Some (rc, h', w')"
  shows "(safe h' w' \<and> holds J h' w') \<and> frame h w h' w'"
proof -
  from i have s: "safe h w" and j: "holds J h w" by simp_all
  from ev evict_from_am_eff [OF s] evict_from_a1in_eff [OF s]
  have "(rc = None \<and> h' = h \<and> w' = w) \<or> evicted h w rc h' w'" by blast
  then show ?thesis
  proof
    assume "rc = None \<and> h' = h \<and> w' = w"
    with i show ?thesis by simp
  next
    assume e: "evicted h w rc h' w'"
    from evicted_safe [OF s e] evicted_holds [OF st s j e] show ?thesis by simp
  qed
qed

lemma ensure_space_for_a1in_holds:
  assumes "stable J" "safe h w" "holds J h w" "ensure_space_for_a1in h w = Some (rc, h', w')"
  shows "safe h' w' \<and> holds J h' w' \<and> frame h w h' w'"
  using ensure_space_for_a1in_lift [of "\<lambda>h w. safe h w \<and> holds J h w" frame,
      OF evict_step_holds [OF assms(1)] frame_refl frame_trans assms(4)] assms(2,3)
  by simp

lemma ensure_space_for_am_holds:
  assumes "stable J" "safe h w" "holds J h w" "ensure_space_for_am h w = Some (rc, h', w')"
  shows "safe h' w' \<and> holds J h' w' \<and> frame h w h' w'"
  using ensure_space_for_am_lift [of "\<lambda>h w. safe h w \<and> holds J h w" frame,
      OF evict_step_holds [OF assms(1)] frame_refl frame_trans assms(4)] assms(2,3)
  by simp

lemma load_insert:
  assumes st: "stable J" and s: "safe h1 w1" and j: "holds J h1 w1"
    and nolk: "\<forall>a. \<not> lookup (resident (cache h1)) pn a"
    and ld: "load_page h1 pn w1 = (Inr p, w2)"
    and put: "ht_put (resident (cache h1)) pn p = Some (resident (cache h'))"
    and se: "static_eq h1 h'"
    and ls: "(a1in (cache h') = p # a1in (cache h1) \<and> am (cache h') = am (cache h1) \<and> x = Q_A1IN) \<or>
             (a1in (cache h') = a1in (cache h1) \<and> am (cache h') = p # am (cache h1) \<and> x = Q_AM)"
    and w': "w' = set_q p x w2"
  shows "safe h' w' \<and> holds J h' w' \<and> p \<noteq> NULL \<and> (\<exists>e. pages w' p = Some e \<and> page_no e = pn)"
proof -
  let ?ps = "page_size (cache h1)"
  let ?e = "(loaded ?ps pn (disk w1))\<lparr>q := x\<rparr>"
  from load_page_eff [OF ld] have dk: "disk w2 = disk w1" and nx: "next_addr w1 \<le> next_addr w2"
    and p0: "p \<noteq> NULL" and pn: "p = next_addr w1" and plt: "p < next_addr w2"
    and pg: "pages w2 = (pages w1)(p \<mapsto> loaded ?ps pn (disk w1))"
    by simp_all
  have fresh: "pages w1 p = None"
  proof (cases "pages w1 p")
    case (Some y)
    from safe_entry [OF s Some] pn show ?thesis by simp
  qed simp
  have pg': "pages w' = (pages w1)(p \<mapsto> ?e)" and dk': "disk w' = disk w1"
    and nx': "next_addr w' = next_addr w2"
    unfolding w' set_q_def by (simp_all add: pg dk deref_def)
  from se have eq: "page_size (cache h') = ?ps" "size_h h' = size_h h1" "pos h' = pos h1"
    "flags h' = flags h1"
    by (simp_all add: static_eq_def)
  have pne: "page_no ?e = pn" by (simp add: loaded_def)
  have eok: "entry_ok ?ps ?e" using entry_ok_loaded [of ?ps pn "disk w1"] by (simp add: entry_ok_def)
  have sf: "safe h' w'"
  proof (rule safe_insert [OF s eq(1) _ _ fresh p0 _ _ _ _ eok pg'])
    show "0 \<le> pos h'" "0 \<le> size_h h'" using safe_misc [OF s] eq by simp_all
    show "p < next_addr w'" using plt nx' by simp
    show "next_addr w1 \<le> next_addr w'" using nx nx' by simp
    show "\<forall>a. \<not> lookup (resident (cache h1)) (page_no ?e) a" using nolk pne by simp
    show "ht_put (resident (cache h1)) (page_no ?e) p = Some (resident (cache h'))"
      using put pne by simp
    show "(a1in (cache h') = p # a1in (cache h1) \<and> am (cache h') = am (cache h1) \<and> q ?e = Q_A1IN) \<or>
          (a1in (cache h') = a1in (cache h1) \<and> am (cache h') = p # am (cache h1) \<and> q ?e = Q_AM)"
      using ls by simp
  qed
  have uniq: "\<forall>a e. pages w1 a = Some e \<longrightarrow> page_no e \<noteq> pn"
  proof (intro allI impI)
    fix a e assume "pages w1 a = Some e"
    from safe_entry [OF s this] nolk show "page_no e \<noteq> pn" by auto
  qed
  from stable_load [OF st j [unfolded holds_def] fresh uniq, of x]
  have "holds J h' w'" unfolding holds_def eq pg' dk' .
  with sf p0 pg' pne show ?thesis by simp
qed

lemma load_fail:
  assumes s: "safe h1 w1" and j: "holds J h1 w1" and ld: "load_page h1 pn w1 = (Inl er, w2)"
  shows "safe h1 w2 \<and> holds J h1 w2"
proof -
  from load_page_eff [OF ld] have e: "disk w2 = disk w1" "next_addr w1 \<le> next_addr w2"
    "pages w2 = pages w1" by simp_all
  from safe_mono [OF s _ _ _ _ _ _ _ e(3) e(2), of h1] safe_misc [OF s] safe_distinct [OF s]
  have "safe h1 w2" by simp
  with j e show ?thesis by (simp add: holds_def)
qed

lemma static_eq_frame: "frame h w h' w' \<Longrightarrow> static_eq h h'"
  by (simp add: frame_def)

lemma cache_get_hit_a1in:
  assumes st: "stable J" and s: "safe h w" and j: "holds J h w"
    and cg: "cache_get h pn w = Some (r, h', w')"
    and g: "ht_get (resident (cache h)) pn = Some p" and p0: "p \<noteq> NULL"
    and e: "pages w p = Some e" and qe: "q e = Q_A1IN"
  shows "safe h' w' \<and> holds J h' w' \<and> static_eq h h' \<and>
         (\<forall>p'. r = Inr p' \<longrightarrow> p' = p \<and> pages w' p = Some (e\<lparr>q := Q_AM\<rparr>))"
proof -
  let ?c = "cache h"
  define h0 where "h0 = h\<lparr>cache := ?c\<lparr>a1in := remove1 p (a1in ?c), a1in_sz := a1in_sz ?c - 1\<rparr>\<rparr>"
  note d = safe_distinct [OF s]
  have d0: "distinct (a1in (cache h0) @ am (cache h0))"
    using d by (auto simp: h0_def dest: notin_set_remove1)
  have s0: "safe h0 w"
    by (rule safe_mono [OF s _ _ _ _ _ _ d0])
       (use safe_misc [OF s] set_remove1_subset [of p "a1in ?c"] in \<open>auto simp: h0_def\<close>)
  have j0: "holds J h0 w" using j by (simp add: holds_def h0_def)
  have se0: "static_eq h h0" by (simp add: static_eq_def h0_def)
  have np: "p \<notin> set (a1in (cache h0) @ am (cache h0))"
  proof -
    have "p \<notin> set (am ?c)" using safe_am [OF s, of p] e qe by auto
    moreover have "p \<notin> set (remove1 p (a1in ?c))" using d by simp
    ultimately show ?thesis by (simp add: h0_def)
  qed
  from cg g p0 e qe obtain rc h1 w1 where en: "ensure_space_for_am h0 w = Some (rc, h1, w1)"
    by (cases "ensure_space_for_am h0 w")
       (auto simp: cache_get_def Let_def deref_def page_list_remove_def h0_def)
  from ensure_space_for_am_holds [OF st s0 j0 en]
  have s1: "safe h1 w1" and j1: "holds J h1 w1" and fr: "frame h0 w h1 w1" by simp_all
  from fr np have pw: "pages w1 p = Some e"
    and np1: "p \<notin> set (a1in (cache h1) @ am (cache h1))" and nx: "next_addr w \<le> next_addr w1"
    unfolding frame_def using e by auto
  from static_eq_trans [OF se0 static_eq_frame [OF fr]] have se1: "static_eq h h1" .
  show ?thesis
  proof (cases rc)
    case (Some er)
    with cg g p0 e qe en have "r = Inl er" "h' = h1" "w' = w1"
      by (auto simp: cache_get_def Let_def deref_def page_list_remove_def h0_def)
    with s1 j1 se1 show ?thesis by simp
  next
    case None
    with cg g p0 e qe en have r: "r = Inr p"
      and h': "h' = h1\<lparr>cache := (cache h1)\<lparr>am := p # am (cache h1), am_sz := am_sz (cache h1) + 1\<rparr>\<rparr>"
      and w': "w' = set_q p Q_AM w1"
      by (auto simp: cache_get_def Let_def deref_def page_list_remove_def h0_def
          page_list_push_front_def)
    have pg': "pages w' = (pages w1)(p \<mapsto> e\<lparr>q := Q_AM\<rparr>)" and dk': "disk w' = disk w1"
      and nx': "next_addr w' = next_addr w1"
      unfolding w' set_q_def using pw by (simp_all add: deref_def)
    have sf: "safe h' w'"
      by (rule safe_promote [OF s1 pw np1 _ _ _ _ _ _ pg'])
         (use safe_misc [OF s1] nx' in \<open>auto simp: h'\<close>)
    have eq': "page_size (cache h') = page_size (cache h1)" "size_h h' = size_h h1"
      "flags h' = flags h1"
      by (simp_all add: h')
    from stable_retag [OF st j1 [unfolded holds_def] pw, of Q_AM]
    have "holds J h' w'" unfolding holds_def pg' dk' eq' .
    moreover from se1 have "static_eq h h'" by (simp add: static_eq_def h')
    ultimately show ?thesis using sf r pg' by simp
  qed
qed

lemma cache_get_hit_am:
  assumes st: "stable J" and s: "safe h w" and j: "holds J h w"
    and cg: "cache_get h pn w = Some (r, h', w')"
    and g: "ht_get (resident (cache h)) pn = Some p" and p0: "p \<noteq> NULL"
    and e: "pages w p = Some e" and qe: "q e = Q_AM"
  shows "safe h' w' \<and> holds J h' w' \<and> static_eq h h' \<and> r = Inr p \<and> w' = w"
proof -
  let ?c = "cache h"
  define h0 where "h0 = h\<lparr>cache := ?c\<lparr>am := remove1 p (am ?c)\<rparr>\<rparr>"
  note d = safe_distinct [OF s]
  have d0: "distinct (a1in (cache h0) @ am (cache h0))"
    using d by (auto simp: h0_def dest: notin_set_remove1)
  have s0: "safe h0 w"
    by (rule safe_mono [OF s _ _ _ _ _ _ d0])
       (use safe_misc [OF s] set_remove1_subset [of p "am ?c"] in \<open>auto simp: h0_def\<close>)
  have np: "p \<notin> set (a1in (cache h0) @ am (cache h0))"
  proof -
    have "p \<notin> set (a1in ?c)" using safe_a1in [OF s, of p] e qe by auto
    moreover have "p \<notin> set (remove1 p (am ?c))" using d by simp
    ultimately show ?thesis by (simp add: h0_def)
  qed
  from cg g p0 e qe have r: "r = Inr p"
    and h': "h' = h\<lparr>cache := ?c\<lparr>am := p # remove1 p (am ?c)\<rparr>\<rparr>" and w': "w' = w"
    by (auto simp: cache_get_def Let_def deref_def page_list_remove_def page_list_push_front_def)
  have "e\<lparr>q := Q_AM\<rparr> = e" using qe by simp
  with e have pg': "pages w' = (pages w)(p \<mapsto> e\<lparr>q := Q_AM\<rparr>)"
    unfolding w' by (simp add: fun_upd_idem)
  have sf: "safe h' w'"
    by (rule safe_promote [OF s0 e np _ _ _ _ _ _ pg'])
       (use safe_misc [OF s] in \<open>auto simp: h' h0_def w'\<close>)
  moreover have "holds J h' w'" using j by (simp add: holds_def h' w')
  moreover have "static_eq h h'" by (simp add: static_eq_def h')
  ultimately show ?thesis using r w' by simp
qed

lemma cache_get_miss:
  assumes st: "stable J" and s: "safe h w" and j: "holds J h w"
    and cg: "cache_get h pn w = Some (r, h', w')"
    and g: "ht_get (resident (cache h)) pn = Some NULL"
  shows "safe h' w' \<and> holds J h' w' \<and> static_eq h h' \<and>
         (\<forall>p. r = Inr p \<longrightarrow> p \<noteq> NULL \<and> (\<exists>e. pages w' p = Some e \<and> page_no e = pn))"
proof -
  let ?c = "cache h"
  have nolk: "\<not> lookup (resident ?c) pn a" for a
  proof
    assume l: "lookup (resident ?c) pn a"
    from ht_get_lookup [OF safe_ok [OF s] l] g have "a = NULL" by simp
    moreover from safe_lookup [OF s l] obtain x where "pages w a = Some x" by blast
    from safe_entry [OF s this] have "0 < a" by simp
    ultimately show False by simp
  qed
  from cg g obtain gp where gg: "ht_get (ghosts ?c) pn = Some gp"
    by (cases "ht_get (ghosts ?c) pn") (auto simp: cache_get_def Let_def)
  have main: "safe h' w' \<and> holds J h' w' \<and> static_eq h h' \<and>
         (\<forall>p. r = Inr p \<longrightarrow> p \<noteq> NULL \<and> (\<exists>e. pages w' p = Some e \<and> page_no e = pn))"
    if s0: "safe h0 w0" and j0: "holds J h0 w0" and se0: "static_eq h h0"
      and t0: "resident (cache h0) = resident ?c"
      and en: "Some (rc, h1, w1) = (if am_side then ensure_space_for_am h0 w0
                                    else ensure_space_for_a1in h0 w0)"
      and fin: "case rc of Some er \<Rightarrow> r = Inl er \<and> h' = h1 \<and> w' = w1
          | None \<Rightarrow> (case load_page h1 pn w1 of
               (Inl er, w2) \<Rightarrow> r = Inl er \<and> h' = h1 \<and> w' = w2
             | (Inr p, w2) \<Rightarrow> (\<exists>t'. ht_put (resident (cache h1)) pn p = Some t' \<and> r = Inr p \<and>
                  h' = (if am_side
                    then h1\<lparr>cache := (cache h1)\<lparr>am := p # am (cache h1),
                            am_sz := am_sz (cache h1) + 1, resident := t'\<rparr>\<rparr>
                    else h1\<lparr>cache := (cache h1)\<lparr>a1in := p # a1in (cache h1),
                            a1in_sz := a1in_sz (cache h1) + 1, resident := t'\<rparr>\<rparr>) \<and>
                  w' = set_q p (if am_side then Q_AM else Q_A1IN) w2))"
    for h0 w0 rc h1 w1 am_side
  proof -
    from en ensure_space_for_am_holds [OF st s0 j0, of rc h1 w1]
      ensure_space_for_a1in_holds [OF st s0 j0, of rc h1 w1]
    have s1: "safe h1 w1" and j1: "holds J h1 w1" and fr: "frame h0 w0 h1 w1"
      by (auto split: if_splits)
    from static_eq_trans [OF se0 static_eq_frame [OF fr]] have se1: "static_eq h h1" .
    from fr have "\<forall>k a. lookup (resident (cache h1)) k a \<longrightarrow> lookup (resident (cache h0)) k a"
      unfolding frame_def by blast
    with t0 nolk have nolk1: "\<forall>a. \<not> lookup (resident (cache h1)) pn a"
      by metis
    show ?thesis
    proof (cases rc)
      case (Some er)
      with fin s1 j1 se1 show ?thesis by simp
    next
      case None
      obtain lr w2 where ld: "load_page h1 pn w1 = (lr, w2)" by (cases "load_page h1 pn w1")
      show ?thesis
      proof (cases lr)
        case (Inl er)
        with None fin ld have "r = Inl er" "h' = h1" "w' = w2" by simp_all
        with load_fail [OF s1 j1 ld [unfolded Inl]] se1 show ?thesis by simp
      next
        case (Inr p)
        with None fin ld obtain t' where put: "ht_put (resident (cache h1)) pn p = Some t'"
          and r: "r = Inr p"
          and h': "h' = (if am_side
                    then h1\<lparr>cache := (cache h1)\<lparr>am := p # am (cache h1),
                            am_sz := am_sz (cache h1) + 1, resident := t'\<rparr>\<rparr>
                    else h1\<lparr>cache := (cache h1)\<lparr>a1in := p # a1in (cache h1),
                            a1in_sz := a1in_sz (cache h1) + 1, resident := t'\<rparr>\<rparr>)"
          and w': "w' = set_q p (if am_side then Q_AM else Q_A1IN) w2"
          by auto
        have se': "static_eq h1 h'" by (simp add: static_eq_def h')
        have "safe h' w' \<and> holds J h' w' \<and> p \<noteq> NULL \<and>
              (\<exists>e. pages w' p = Some e \<and> page_no e = pn)"
          by (rule load_insert [OF st s1 j1 nolk1 ld [unfolded Inr] _ se' _ w'])
             (use put in \<open>auto simp: h'\<close>)
        with r static_eq_trans [OF se1 se'] show ?thesis by simp
      qed
    qed
  qed
  show ?thesis
  proof (cases "gp = NULL")
    case True
    from cg g gg True obtain rc h1 w1 where en: "ensure_space_for_a1in h w = Some (rc, h1, w1)"
      by (cases "ensure_space_for_a1in h w") (auto simp: cache_get_def Let_def)
    show ?thesis
    proof (rule main [OF s j static_eq_refl refl, of rc h1 w1 False])
      show "Some (rc, h1, w1) = (if False then ensure_space_for_am h w
                                    else ensure_space_for_a1in h w)" using en by simp
      show "case rc of Some er \<Rightarrow> r = Inl er \<and> h' = h1 \<and> w' = w1
          | None \<Rightarrow> (case load_page h1 pn w1 of
               (Inl er, w2) \<Rightarrow> r = Inl er \<and> h' = h1 \<and> w' = w2
             | (Inr p, w2) \<Rightarrow> (\<exists>t'. ht_put (resident (cache h1)) pn p = Some t' \<and> r = Inr p \<and>
                  h' = (if False
                    then h1\<lparr>cache := (cache h1)\<lparr>am := p # am (cache h1),
                            am_sz := am_sz (cache h1) + 1, resident := t'\<rparr>\<rparr>
                    else h1\<lparr>cache := (cache h1)\<lparr>a1in := p # a1in (cache h1),
                            a1in_sz := a1in_sz (cache h1) + 1, resident := t'\<rparr>\<rparr>) \<and>
                  w' = set_q p (if False then Q_AM else Q_A1IN) w2))"
        using cg g gg True en
        by (auto simp: cache_get_def Let_def page_list_push_front_def
            split: option.splits sum.splits prod.splits)
    qed
  next
    case False
    from cg g gg False obtain tg where dl: "ht_del (ghosts ?c) pn = Some tg"
      by (cases "ht_del (ghosts ?c) pn") (auto simp: cache_get_def Let_def)
    define h0 where "h0 = h\<lparr>cache := ?c\<lparr>a1out := ghost_list_remove (a1out ?c) gp,
        ghosts := tg, a1out_sz := a1out_sz ?c - 1\<rparr>\<rparr>"
    define w0 where "w0 = cache_free_ghost gp w"
    have s0: "safe h0 w0"
      by (rule safe_mono [OF s])
         (use safe_misc [OF s] safe_distinct [OF s] in
           \<open>auto simp: h0_def w0_def cache_free_ghost_def\<close>)
    have j0: "holds J h0 w0" using j by (simp add: holds_def h0_def w0_def cache_free_ghost_def)
    have se0: "static_eq h h0" by (simp add: static_eq_def h0_def)
    have t0: "resident (cache h0) = resident ?c" by (simp add: h0_def)
    from cg g gg False dl obtain rc h1 w1 where en: "ensure_space_for_am h0 w0 = Some (rc, h1, w1)"
      by (cases "ensure_space_for_am h0 w0") (auto simp: cache_get_def Let_def h0_def w0_def)
    show ?thesis
    proof (rule main [OF s0 j0 se0 t0, of rc h1 w1 True])
      show "Some (rc, h1, w1) = (if True then ensure_space_for_am h0 w0
                                    else ensure_space_for_a1in h0 w0)" using en by simp
      show "case rc of Some er \<Rightarrow> r = Inl er \<and> h' = h1 \<and> w' = w1
          | None \<Rightarrow> (case load_page h1 pn w1 of
               (Inl er, w2) \<Rightarrow> r = Inl er \<and> h' = h1 \<and> w' = w2
             | (Inr p, w2) \<Rightarrow> (\<exists>t'. ht_put (resident (cache h1)) pn p = Some t' \<and> r = Inr p \<and>
                  h' = (if True
                    then h1\<lparr>cache := (cache h1)\<lparr>am := p # am (cache h1),
                            am_sz := am_sz (cache h1) + 1, resident := t'\<rparr>\<rparr>
                    else h1\<lparr>cache := (cache h1)\<lparr>a1in := p # a1in (cache h1),
                            a1in_sz := a1in_sz (cache h1) + 1, resident := t'\<rparr>\<rparr>) \<and>
                  w' = set_q p (if True then Q_AM else Q_A1IN) w2))"
        using cg g gg False dl en
        by (auto simp: cache_get_def Let_def page_list_push_front_def h0_def w0_def
            split: option.splits sum.splits prod.splits)
    qed
  qed
qed

lemma cache_get_holds:
  assumes st: "stable J" and s: "safe h w" and j: "holds J h w"
    and cg: "cache_get h pn w = Some (r, h', w')"
  shows "safe h' w' \<and> holds J h' w' \<and> static_eq h h' \<and>
         (\<forall>p. r = Inr p \<longrightarrow> p \<noteq> NULL \<and> (\<exists>e. pages w' p = Some e \<and> page_no e = pn))"
proof -
  from cg obtain p where g: "ht_get (resident (cache h)) pn = Some p"
    by (cases "ht_get (resident (cache h)) pn") (auto simp: cache_get_def Let_def)
  show ?thesis
  proof (cases "p = NULL")
    case True
    with cache_get_miss [OF st s j cg] g show ?thesis by simp
  next
    case False
    from lookup_ht_get [OF g False] safe_lookup [OF s] obtain e where
      e: "pages w p = Some e" "page_no e = pn" "q e \<noteq> Q_NONE" by blast
    from safe_entry [OF s e(1)] have p0: "p \<noteq> NULL" by simp
    show ?thesis
    proof (cases "q e = Q_A1IN")
      case True
      from cache_get_hit_a1in [OF st s j cg g False e(1) True] e p0 show ?thesis by auto
    next
      case q: False
      with e have "q e = Q_AM" by (cases "q e") auto
      from cache_get_hit_am [OF st s j cg g False e(1) this] e p0 show ?thesis by auto
    qed
  qed
qed

section \<open>Read, write, fsync and lseek\<close>

lemma safe_pos: "safe h w \<Longrightarrow> 0 \<le> np \<Longrightarrow> safe (h\<lparr>pos := np\<rparr>) w"
  using safe_mono [of h w "h\<lparr>pos := np\<rparr>" w] safe_misc [of h w] safe_distinct [of h w] by simp

lemma map_upt_join: "a \<le> b \<Longrightarrow> b \<le> c \<Longrightarrow> map f [a..<b] @ map f [b..<c] = map f [a..<c]"
  by (metis le_Suc_ex map_append upt_add_eq_append)

lemma take_drop_map_nth:
  "i + n \<le> length xs \<Longrightarrow> take n (drop i xs) = map (\<lambda>k. xs ! k) [i..<i + n]"
  by (auto simp: list_eq_iff_nth_eq)

lemma pos_split:
  assumes "0 \<le> (c::int)" "0 < ps"
  shows "nat c = nat (c div int ps) * ps + nat (c mod int ps)" "nat (c mod int ps) < ps"
proof -
  have "c = (c div int ps) * int ps + c mod int ps" by simp
  moreover have "0 \<le> c div int ps" "0 \<le> c mod int ps" using assms by (simp_all add: pos_imp_zdiv_nonneg_iff)
  ultimately show "nat c = nat (c div int ps) * ps + nat (c mod int ps)"
    by (metis nat_add_distrib nat_int nat_mult_distrib of_nat_0_le_iff mult_nonneg_nonneg)
  show "nat (c mod int ps) < ps" using assms by (simp add: nat_less_iff)
qed

lemma vtpc_read_loop_holds:
  assumes st: "stable J" and run: "vtpc_read_loop h count tot out w = Some r"
    and s: "safe h w" and j: "holds J h w"
  shows "read_post J h count tot out r"
proof -
  have "safe h w \<and> holds J h w \<longrightarrow> read_post J h count tot out r"
  proof (rule vtpc_read_loop.raw_induct [where P = "\<lambda>h count tot out w r.
      safe h w \<and> holds J h w \<longrightarrow> read_post J h count tot out r", OF _ run], goal_cases)
    case (1 loop h count tot out w r)
    show ?case
    proof
      assume sj: "safe h w \<and> holds J h w"
      then have s: "safe h w" and j: "holds J h w" by simp_all
      note m = safe_misc [OF s]
      let ?ps = "page_size (cache h)"
      let ?pn = "nat (pos h div int ?ps)" and ?ip = "nat (pos h mod int ?ps)"
      show "read_post J h count tot out r"
      proof (cases "tot < count")
        case False
        with 1(2) have "r = (Inr tot, out, h, w)" by simp
        with s j show ?thesis by (simp add: read_post_def static_eq_def)
      next
        case True
        from True 1(2) obtain cr h1 w1 where cg: "cache_get h ?pn w = Some (cr, h1, w1)"
          by (cases "cache_get h ?pn w") (auto simp: Let_def)
        from cache_get_holds [OF st s j cg] have s1: "safe h1 w1" and j1: "holds J h1 w1"
          and se: "static_eq h h1"
          and pp: "\<forall>p. cr = Inr p \<longrightarrow> p \<noteq> NULL \<and> (\<exists>e. pages w1 p = Some e \<and> page_no e = ?pn)"
          by simp_all
        from se have ph: "pos h1 = pos h" and psz: "page_size (cache h1) = ?ps"
          by (simp_all add: static_eq_def)
        from se have se': "static_eq h (h1\<lparr>pos := pos h\<rparr>)" by (simp add: static_eq_def)
        show ?thesis
        proof (cases cr)
          case (Inl er)
          with True 1(2) cg have "r = (if tot > 0 then (Inr tot, out, h1, w1) else (Inl er, out, h1, w1))"
            by (auto simp: Let_def)
          with s1 j1 se' ph True show ?thesis by (simp add: read_post_def)
        next
          case (Inr p)
          with pp obtain e where e: "pages w1 p = Some e" "page_no e = ?pn" by blast
          then have de: "deref w1 p = e" by (simp add: deref_def)
          from safe_entry [OF s1 e(1)] psz have eok: "entry_ok ?ps e" by simp
          show ?thesis
          proof (cases "?ip \<ge> valid_len e")
            case True
            with \<open>tot < count\<close> 1(2) cg Inr de have "r = (Inr tot, out, h1, w1)"
              by (simp add: Let_def)
            with s1 j1 se' ph show ?thesis by (simp add: read_post_def)
          next
            case False
            define want where "want = min_sz (count - tot) (?ps - ?ip)"
            define tn where "tn = min_sz want (valid_len e - ?ip)"
            define out1 where "out1 = out @ take tn (drop ?ip (data e))"
            define h2 where "h2 = h1\<lparr>pos := pos h1 + int tn\<rparr>"
            have tn_le: "tn \<le> valid_len e - ?ip" "tn \<le> count - tot"
              by (auto simp: tn_def want_def min_sz_def)
            from False have tn0: "?ip + tn \<le> valid_len e" using tn_le by simp
            with eok have tnl: "?ip + tn \<le> length (data e)" "?ip + tn \<le> ?ps"
              by (auto simp: entry_ok_def)
            have s2: "safe h2 w1" unfolding h2_def using safe_pos [OF s1] m ph by simp
            have j2: "holds J h2 w1" using j1 by (simp add: holds_def h2_def)
            have p2: "pos h2 = pos h + int tn" by (simp add: h2_def ph)
            have se2: "static_eq h (h2\<lparr>pos := pos h\<rparr>)" using se by (simp add: static_eq_def h2_def)
            have lo: "length out1 = length out + tn" using tnl by (simp add: out1_def)
            have ct: "\<forall>F. reads J F \<longrightarrow> out1 = out @ map F [nat (pos h) ..< nat (pos h) + tn]"
            proof (intro allI impI)
              fix F assume rd: "reads J F"
              from m pos_split [of "pos h" ?ps]
              have sp: "nat (pos h) = ?pn * ?ps + ?ip" and il: "?ip < ?ps" by simp_all
              have "data e ! k = F (?pn * ?ps + k)" if "k < ?ip + tn" for k
              proof -
                from that tn0 tnl have "k < valid_len e" "k < ?ps" by simp_all
                with rd j1 [unfolded holds_def psz] e(1)
                have "data e ! k = F (page_no e * ?ps + k)"
                  unfolding reads_def by blast
                with e(2) show ?thesis by simp
              qed
              then have "map (\<lambda>k. data e ! k) [?ip..<?ip + tn] = map (\<lambda>k. F (?pn * ?ps + k)) [?ip..<?ip + tn]"
                by simp
              also have "\<dots> = map F (map (\<lambda>k. ?pn * ?ps + k) [?ip..<?ip + tn])" by simp
              also have "map (\<lambda>k. ?pn * ?ps + k) [?ip..<?ip + tn] = [nat (pos h) ..< nat (pos h) + tn]"
                unfolding sp by (simp add: list_eq_iff_nth_eq add.assoc)
              finally show "out1 = out @ map F [nat (pos h) ..< nat (pos h) + tn]"
                unfolding out1_def take_drop_map_nth [OF tnl(1)] by simp
            qed
            have np2: "nat (pos h2) = nat (pos h) + tn" using m p2 by (simp add: nat_add_distrib)
            have stop: "read_post J h count tot out (Inr (tot + tn), out1, h2, w1)"
              unfolding read_post_def using s2 j2 se2 p2 lo ct np2 tn_le \<open>tot < count\<close>
              by (simp add: out1_def)
            show ?thesis
            proof (cases "tn < want")
              case True
              with \<open>tot < count\<close> 1(2) cg Inr de False
              have "r = (Inr (tot + tn), out1, h2, w1)"
                by (simp add: Let_def want_def tn_def out1_def h2_def)
              with stop show ?thesis by simp
            next
              case nt: False
              with \<open>tot < count\<close> 1(2) cg Inr de False
              have "loop h2 count (tot + tn) out1 w1 = Some r"
                by (simp add: Let_def want_def tn_def out1_def h2_def)
              from 1(1) [OF this] s2 j2 have rp: "read_post J h2 count (tot + tn) out1 r" by simp
              obtain res out' h' w' where r: "r = (res, out', h', w')" by (cases r)
              from nt have "0 < tn" 
                using False \<open>tot < count\<close> m pos_split(2) [of "pos h" ?ps]
                by (auto simp: tn_def want_def min_sz_def split: if_splits)
              from rp have q1: "safe h' w'" "holds J h' w'"
                and q2: "static_eq h2 (h'\<lparr>pos := pos h2\<rparr>)" and q3: "pos h2 \<le> pos h'"
                and q4: "length out' = length out1 + nat (pos h' - pos h2)"
                and q5: "take (length out1) out' = out1"
                and q6: "\<forall>F. reads J F \<longrightarrow> out' = out1 @ map F [nat (pos h2) ..< nat (pos h')]"
                and q7: "case res of Inr n \<Rightarrow> int n = int (tot + tn) + (pos h' - pos h2) \<and>
                     n \<le> max (tot + tn) count | Inl er \<Rightarrow> pos h' = pos h2 \<and> tot + tn = 0"
                unfolding r read_post_def by simp_all
              have a: "static_eq h (h'\<lparr>pos := pos h\<rparr>)"
                using q2 se2 by (simp add: static_eq_def)
              have b: "pos h \<le> pos h'" using q3 p2 by simp
              have c: "length out' = length out + nat (pos h' - pos h)"
                using q4 q3 p2 lo by (simp add: nat_diff_distrib)
              have c': "take (length out) out' = out"
              proof -
                from q5 have "take (length out) (take (length out1) out') = take (length out) out1"
                  by simp
                then show ?thesis by (simp add: out1_def min_def lo)
              qed
              have d: "\<forall>F. reads J F \<longrightarrow> out' = out @ map F [nat (pos h) ..< nat (pos h')]"
              proof (intro allI impI)
                fix F assume rd: "reads J F"
                with q6 have "out' = out1 @ map F [nat (pos h2) ..< nat (pos h')]" by simp
                with ct rd have "out' = out @ map F [nat (pos h) ..< nat (pos h) + tn] @
                    map F [nat (pos h) + tn ..< nat (pos h')]" by (simp add: np2)
                moreover have "nat (pos h) + tn \<le> nat (pos h')"
                  using q3 p2 m by arith
                ultimately show "out' = out @ map F [nat (pos h) ..< nat (pos h')]"
                  by (simp add: map_upt_join)
              qed
              have e': "case res of Inr n \<Rightarrow> int n = int tot + (pos h' - pos h) \<and> n \<le> max tot count
                  | Inl er \<Rightarrow> pos h' = pos h \<and> tot = 0"
                using q7 p2 \<open>0 < tn\<close> tn_le \<open>tot < count\<close>
                by (auto split: sum.splits)
              from q1 a b c c' d e' show ?thesis unfolding r read_post_def by simp
            qed
          qed
        qed
      qed
    qed
  qed
  with s j show ?thesis by simp
qed

lemma memset0_zero_tail:
  assumes "entry_ok ps e0" "valid_len e0 < in_page" "in_page \<le> ps"
  shows "memset0 (data e0) (valid_len e0) (in_page - valid_len e0) = data e0"
proof -
  from assms have len: "length (data e0) = ps" and z: "\<forall>i. valid_len e0 \<le> i \<and> i < ps \<longrightarrow> data e0 ! i = 0"
    by (auto simp: entry_ok_def)
  show ?thesis
    unfolding memset0_def using assms len z
    by (auto simp: list_eq_iff_nth_eq nth_append)
qed

lemma write_entry_data:
  assumes "entry_ok ps e0" "in_page \<le> ps"
  shows "data (write_entry e0 in_page chunk src) = memcpy_to (data e0) in_page src"
  using memset0_zero_tail [OF assms(1) _ assms(2)] by (simp add: write_entry_def)

lemma entry_ok_write:
  assumes ok: "entry_ok ps e0" and b: "in_page + chunk \<le> ps" and l: "length src \<le> chunk"
  shows "entry_ok ps (write_entry e0 in_page chunk src)"
proof -
  from ok have len: "length (data e0) = ps" and vl: "valid_len e0 \<le> ps"
    and z: "\<forall>i. valid_len e0 \<le> i \<and> i < ps \<longrightarrow> data e0 ! i = 0"
    by (auto simp: entry_ok_def)
  from b have ip: "in_page \<le> ps" by simp
  have d: "data (write_entry e0 in_page chunk src) = memcpy_to (data e0) in_page src"
    by (rule write_entry_data [OF ok ip])
  have v: "valid_len (write_entry e0 in_page chunk src) = max (valid_len e0) (in_page + chunk)"
    by (simp add: write_entry_def max_sz_def max_def)
  show ?thesis
    unfolding entry_ok_def d v memcpy_to_def using len vl z b l
    by (auto simp: nth_append)
qed

lemma wstep_True: "wstep (\<lambda>n fl ps sz pg d. True) c0 buf count"
  by (simp add: wstep_def)

lemma safe_uniq:
  assumes s: "safe h w" and a: "pages w a = Some e" and b: "pages w b = Some e'"
    and pn: "page_no e = page_no e'"
  shows "a = b"
  using lookup_fun [OF safe_ok [OF s]] safe_entry [OF s a] safe_entry [OF s b] pn by metis

lemma wstepD:
  assumes ws: "wstep K c0 buf count"
    and j1: "K tot fl ps sz pg d" and m: "0 < ps" "0 \<le> c0 + int tot" "0 \<le> sz" and T: "tot < count"
    and e0: "pg p = Some e0" "page_no e0 = nat ((c0 + int tot) div int ps)" and eok: "entry_ok ps e0"
    and uq: "\<forall>a e. pg a = Some e \<and> page_no e = page_no e0 \<longrightarrow> a = p"
  shows "K (tot + min_sz (count - tot) (ps - nat ((c0 + int tot) mod int ps))) fl ps
           (max sz (c0 + int tot + int (min_sz (count - tot) (ps - nat ((c0 + int tot) mod int ps)))))
           (pg(p \<mapsto> write_entry e0 (nat ((c0 + int tot) mod int ps))
               (min_sz (count - tot) (ps - nat ((c0 + int tot) mod int ps)))
               (take (min_sz (count - tot) (ps - nat ((c0 + int tot) mod int ps))) (drop tot buf)))) d"
proof -
  from ws have "K tot fl ps sz pg d \<and> 0 < ps \<and> 0 \<le> c0 + int tot \<and> 0 \<le> sz \<and> tot < count \<and>
       pg p = Some e0 \<and> page_no e0 = nat ((c0 + int tot) div int ps) \<and> entry_ok ps e0 \<and>
       (\<forall>a e. pg a = Some e \<and> page_no e = page_no e0 \<longrightarrow> a = p) \<longrightarrow>
       (let in_page = nat ((c0 + int tot) mod int ps);
            chunk = min_sz (count - tot) (ps - in_page)
        in K (tot + chunk) fl ps (max sz (c0 + int tot + int chunk))
             (pg(p \<mapsto> write_entry e0 in_page chunk (take chunk (drop tot buf)))) d)"
    unfolding wstep_def by (elim allE)
  with assms show ?thesis unfolding Let_def by blast
qed

lemma vtpc_write_loop_holds:
  assumes st: "\<forall>n. stable (K n)" and ws: "wstep K c0 buf count"
    and run: "vtpc_write_loop h buf count tot w = Some r"
    and s: "safe h w" and j: "holds (K tot) h w" and c0: "pos h = c0 + int tot"
  shows "write_post K h count tot r"
proof -
  have "buf = buf \<and> count = count \<and> safe h w \<and> holds (K tot) h w \<and> pos h = c0 + int tot
      \<longrightarrow> write_post K h count tot r"
  proof (rule vtpc_write_loop.raw_induct [where P = "\<lambda>h b cnt tot w r. b = buf \<and> cnt = count \<and>
      safe h w \<and> holds (K tot) h w \<and> pos h = c0 + int tot \<longrightarrow> write_post K h count tot r",
      OF _ run], intro impI, elim conjE, goal_cases)
    case (1 loop h b cnt tot w r)
    then have s: "safe h w" and j: "holds (K tot) h w" and c0: "pos h = c0 + int tot"
      and bc: "b = buf" "cnt = count" by simp_all
    have ih: "write_post K h' count tot' r'"
      if "loop h' buf count tot' w' = Some r'" "safe h' w'" "holds (K tot') h' w'"
        "pos h' = c0 + int tot'" for h' tot' w' r'
      using 1(1) [OF that(1)] that(2-) by simp
    note m = safe_misc [OF s]
    let ?ps = "page_size (cache h)"
    let ?pn = "nat (pos h div int ?ps)" and ?ip = "nat (pos h mod int ?ps)"
    note run = 1(2) [unfolded bc]
    show ?case
    proof (cases "tot < count")
      case False
      with run have "r = (Inr tot, h, w)" by simp
      with s j show ?thesis
        unfolding write_post_def by (auto simp: static_eq_def intro!: exI [of _ tot])
    next
      case True
      from True run obtain cr h1 w1 where cg: "cache_get h ?pn w = Some (cr, h1, w1)"
        by (cases "cache_get h ?pn w") (auto simp: Let_def)
      from st have stt: "stable (K tot)" by simp
      from cache_get_holds [OF stt s j cg] have s1: "safe h1 w1" and j1: "holds (K tot) h1 w1"
        and se: "static_eq h h1"
        and pp: "\<forall>p. cr = Inr p \<longrightarrow> p \<noteq> NULL \<and> (\<exists>e. pages w1 p = Some e \<and> page_no e = ?pn)"
        by simp_all
      from se have ph: "pos h1 = pos h" and psz: "page_size (cache h1) = ?ps"
        and sz1: "size_h h1 = size_h h" and fl1: "flags h1 = flags h"
        by (simp_all add: static_eq_def)
      show ?thesis
      proof (cases cr)
        case (Inl er)
        with True run cg have "r = (if tot > 0 then (Inr tot, h1, w1) else (Inl er, h1, w1))"
          by (auto simp: Let_def)
        with s1 j1 se ph sz1 True show ?thesis
          unfolding write_post_def by (auto simp: static_eq_def intro!: exI [of _ tot])
      next
        case (Inr p)
        with pp obtain e0 where e0: "pages w1 p = Some e0" "page_no e0 = ?pn" by blast
        then have de: "deref w1 p = e0" by (simp add: deref_def)
        from safe_entry [OF s1 e0(1)] psz have eok: "entry_ok ?ps e0" by simp
        define chunk where "chunk = min_sz (count - tot) (?ps - ?ip)"
        define e1 where "e1 = write_entry e0 ?ip chunk (take chunk (drop tot buf))"
        define w2 where "w2 = w1\<lparr>pages := (pages w1)(p \<mapsto> e1)\<rparr>"
        define h2 where "h2 = h1\<lparr>pos := pos h1 + int chunk\<rparr>"
        define h3 where "h3 = h2\<lparr>size_h := pos h2\<rparr>"
        from m pos_split [of "pos h" ?ps] have il: "?ip < ?ps" by simp
        with True have ch: "0 < chunk" "chunk \<le> count - tot" "?ip + chunk \<le> ?ps"
          by (auto simp: chunk_def min_sz_def)
        have eok1: "entry_ok ?ps e1" unfolding e1_def
          by (rule entry_ok_write [OF eok ch(3)]) simp
        have s2w: "safe h1 w2"
        proof (rule safe_update [OF s1 e0(1)])
          show "page_no e1 = page_no e0" "q e1 = q e0" by (simp_all add: e1_def write_entry_def)
          show "entry_ok (page_size (cache h1)) e1" using eok1 psz by simp
          show "pages w2 = (pages w1)(p \<mapsto> e1)" "next_addr w1 \<le> next_addr w2"
            by (simp_all add: w2_def)
        qed
        have p2: "pos h2 = pos h + int chunk" by (simp add: h2_def ph)
        have s2: "safe h2 w2" unfolding h2_def using safe_pos [OF s2w] m ph by simp
        have uq: "\<forall>a e. pages w1 a = Some e \<and> page_no e = page_no e0 \<longrightarrow> a = p"
          using safe_uniq [OF s1 _ e0(1)] by blast
        have ipc: "nat ((c0 + int tot) mod int ?ps) = ?ip" using c0 by simp
        have e0': "page_no e0 = nat ((c0 + int tot) div int ?ps)" using e0(2) c0 by simp
        have m': "0 < ?ps" "0 \<le> c0 + int tot" "0 \<le> size_h h" using m c0 by simp_all
        have j1': "K tot (flags h) ?ps (size_h h) (pages w1) (disk w1)"
          using j1 by (simp add: holds_def psz sz1 fl1)
        note k = wstepD [OF ws j1' m' True e0(1) e0' eok uq, unfolded ipc, folded chunk_def,
            folded e1_def]
        have pw2: "pages w2 = (pages w1)(p \<mapsto> e1)" "disk w2 = disk w1"
          by (simp_all add: w2_def)
        have k2: "K (tot + chunk) (flags h) ?ps (max (size_h h) (pos h + int chunk)) (pages w2) (disk w2)"
          unfolding pw2 c0 by (rule k)
        note defs = Let_def chunk_def e1_def w2_def h2_def h3_def write_entry_def
        have se2: "static_eq h (h2\<lparr>pos := pos h, size_h := size_h h\<rparr>)"
          using se by (simp add: static_eq_def h2_def)
        have fin: "write_post K h count tot r"
          if rp: "write_post K hx count (tot + chunk) r" and sx: "static_eq h2 (hx\<lparr>size_h := size_h h2\<rparr>)"
            and szx: "size_h hx = max (size_h h) (pos h + int chunk)" for hx
        proof -
          obtain res h' w' where r: "r = (res, h', w')" by (cases r)
          from sx have px: "pos hx = pos h + int chunk" using p2 by (simp add: static_eq_def)
          from rp obtain tot' where q1: "safe h' w'"
            and q2: "static_eq hx (h'\<lparr>pos := pos hx, size_h := size_h hx\<rparr>)"
            and q3: "size_h hx \<le> size_h h'" and q4: "holds (K tot') h' w'"
            and q5: "pos h' = pos hx + (int tot' - int (tot + chunk))"
            and q6: "tot + chunk \<le> tot'" "tot' \<le> max (tot + chunk) count"
            and q7: "size_h h' = max (size_h hx) (if tot' = tot + chunk then size_h hx else pos h')"
            and q8: "res = Inr tot' \<or> (\<exists>e. res = Inl e) \<and> tot' = 0"
            unfolding r write_post_def by auto
          have a: "static_eq h (h'\<lparr>pos := pos h, size_h := size_h h\<rparr>)"
            using q2 sx se2 by (simp add: static_eq_def h2_def)
          have b: "size_h h \<le> size_h h'" using q3 szx by simp
          have c: "pos h' = pos h + (int tot' - int tot)" using q5 px by simp
          have d: "tot \<le> tot'" "tot' \<le> max tot count" using q6 ch True by auto
          have e: "size_h h' = max (size_h h) (if tot' = tot then size_h h else pos h')"
            using q7 szx q6 ch c px q5 by (auto simp: max_def split: if_splits)
          show ?thesis unfolding r write_post_def using q1 a b q4 c d e q8
            by (auto intro!: exI [of _ tot'])
        qed
        show ?thesis
        proof (cases "pos h2 > size_h h2")
          case False
          with True run cg Inr de have lp: "loop h2 buf count (tot + chunk) w2 = Some r"
            by (simp add: defs split del: if_split cong: if_cong)
          from False have mx: "max (size_h h) (pos h + int chunk) = size_h h"
            using p2 sz1 by (simp add: h2_def)
          have j2: "holds (K (tot + chunk)) h2 w2"
            using k2 mx by (simp add: holds_def h2_def psz sz1 fl1)
          from ih [OF lp s2 j2] p2 c0
          have rp: "write_post K h2 count (tot + chunk) r" by simp
          show ?thesis
            by (rule fin [OF rp]) (use mx sz1 in \<open>simp_all add: static_eq_def h2_def\<close>)
        next
          case gt: True
          then have mx: "max (size_h h) (pos h + int chunk) = pos h2"
            using p2 sz1 by (simp add: h2_def)
          have s3: "safe h3 w2"
            by (rule safe_mono [OF s2])
               (use safe_misc [OF s2] safe_distinct [OF s2] gt in \<open>auto simp: h3_def\<close>)
          have j3: "holds (K (tot + chunk)) h3 w2"
            using k2 mx by (simp add: holds_def h3_def h2_def psz fl1)
          have p3: "pos h3 = c0 + int (tot + chunk)" using p2 c0 by (simp add: h3_def)
          have sx: "static_eq h2 (h3\<lparr>size_h := size_h h2\<rparr>)" by (simp add: static_eq_def h3_def)
          have szx: "size_h h3 = max (size_h h) (pos h + int chunk)" using mx by (simp add: h3_def)
          obtain fr w3 where ft: "ftruncate w2 (flags h3) (size_h h3) = (fr, w3)"
            by (cases "ftruncate w2 (flags h3) (size_h h3)")
          note fe = ftruncate_eff [OF ft]
          have s3': "safe h3 w3"
            by (rule safe_mono [OF s3]) (use safe_misc [OF s3] safe_distinct [OF s3] fe in auto)
          show ?thesis
          proof (cases fr)
            case (Some er)
            with gt \<open>tot < count\<close> run cg Inr de ft
            have "(if 0 < tot + chunk then Some (Inr (tot + chunk), h3, w3)
                   else Some (Inl er, h3, w3)) = Some r"
              by (simp add: defs split del: if_split cong: if_cong)
            with ch have r: "r = (Inr (tot + chunk), h3, w3)" by simp
            from Some fe j3 have j3': "holds (K (tot + chunk)) h3 w3" by (simp add: holds_def)
            have "write_post K h3 count (tot + chunk) r"
              unfolding r write_post_def using s3' j3' True ch
              by (auto simp: static_eq_def intro!: exI [of _ "tot + chunk"])
            from fin [OF this sx szx] show ?thesis .
          next
            case None
            with gt \<open>tot < count\<close> run cg Inr de ft
            have lp: "loop h3 buf count (tot + chunk) w3 = Some r"
              by (simp add: defs split del: if_split cong: if_cong)
            from None fe have dk: "disk w3 = disk_truncate (disk w2) (nat (size_h h3))"
              and pg: "pages w3 = pages w2" and nn: "0 \<le> size_h h3" by simp_all
            from st have "stable (K (tot + chunk))" by simp
            from stable_truncate [OF this j3 [unfolded holds_def] nn]
            have j3': "holds (K (tot + chunk)) h3 w3" unfolding holds_def pg dk .
            from ih [OF lp s3' j3' p3]
            have rp: "write_post K h3 count (tot + chunk) r" .
            from fin [OF rp sx szx] show ?thesis .
          qed
        qed
      qed
    qed
  qed
  with s j c0 show ?thesis by simp
qed

lemma flush_safe:
  assumes s: "safe h w" and e: "pages w p = Some e" and fl: "cache_flush_page h p w = (rc, w')"
  shows "safe h w'"
proof -
  from safe_entry [OF s e] have p0: "p \<noteq> NULL" and ok: "entry_ok (page_size (cache h)) e" by simp_all
  from safe_misc [OF s] have s0: "0 \<le> size_h h" by simp
  note eff = cache_flush_page_eff [OF e fl s0 p0]
  show ?thesis
  proof (cases rc)
    case None
    with eff have pg: "pages w' = (pages w)(p \<mapsto> e\<lparr>dirty := False\<rparr>)"
      and nx: "next_addr w \<le> next_addr w'" by simp_all
    show ?thesis
      by (rule safe_update [OF s e _ _ _ pg nx]) (use ok in \<open>simp_all add: entry_ok_def\<close>)
  next
    case (Some er)
    with eff have "pages w' = pages w" "next_addr w \<le> next_addr w'" by simp_all
    with safe_mono [OF s, of h w'] safe_misc [OF s] safe_distinct [OF s] show ?thesis by simp
  qed
qed

lemma flush_list_holds:
  assumes st: "stable J"
  shows "safe h w \<Longrightarrow> holds J h w \<Longrightarrow> set l \<subseteq> set (a1in (cache h) @ am (cache h)) \<Longrightarrow>
     flush_list h l w = (rc, w') \<Longrightarrow> safe h w' \<and> holds J h w'"
proof (induction l arbitrary: w)
  case Nil
  then show ?case by simp
next
  case (Cons p l)
  from Cons.prems have pin: "p \<in> set (a1in (cache h) @ am (cache h))" by simp
  from safe_live [OF Cons.prems(1) pin] obtain e where e: "pages w p = Some e" by metis
  obtain fl w1 where fl: "cache_flush_page h p w = (fl, w1)" by (cases "cache_flush_page h p w")
  note s1 = flush_safe [OF Cons.prems(1) e fl]
  note j1 = stable_flush [OF st Cons.prems(1,2) e fl]
  show ?case
  proof (cases fl)
    case (Some er)
    with Cons.prems(4) fl have "w' = w1" by simp
    with s1 j1 show ?thesis by simp
  next
    case None
    with Cons.prems(4) fl have "flush_list h l w1 = (rc, w')" by simp
    from Cons.IH [OF s1 j1 _ this] Cons.prems(3) show ?thesis by simp
  qed
qed

lemma fsync_eff: "fsync w = (r, w') \<Longrightarrow> pages w' = pages w \<and> disk w' = disk w \<and> next_addr w' = next_addr w"
  by (auto simp: fsync_def next_fault_def split: list.splits option.splits)

lemma safe_world:
  "safe h w \<Longrightarrow> pages w' = pages w \<Longrightarrow> next_addr w \<le> next_addr w' \<Longrightarrow> safe h w'"
  using safe_mono [of h w h w'] safe_misc [of h w] safe_distinct [of h w] by simp

lemma vtpc_fsync_holds:
  assumes st: "stable J" and s: "safe h w" and j: "holds J h w" and f: "vtpc_fsync h w = (rc, w')"
  shows "safe h w' \<and> holds J h w'"
proof (cases "used h")
  case False
  with f s j show ?thesis by (simp add: vtpc_fsync_def)
next
  case True
  obtain r1 w1 where f1: "flush_list h (a1in (cache h)) w = (r1, w1)"
    by (cases "flush_list h (a1in (cache h)) w")
  from flush_list_holds [OF st s j _ f1] have s1: "safe h w1" and j1: "holds J h w1" by simp_all
  show ?thesis
  proof (cases r1)
    case (Some er)
    with True f f1 have "w' = w1" by (simp add: vtpc_fsync_def cache_flush_all_def)
    with s1 j1 show ?thesis by simp
  next
    case None
    obtain r2 w2 where f2: "flush_list h (am (cache h)) w1 = (r2, w2)"
      by (cases "flush_list h (am (cache h)) w1")
    from flush_list_holds [OF st s1 j1 _ f2] have s2: "safe h w2" and j2: "holds J h w2" by simp_all
    show ?thesis
    proof (cases r2)
      case (Some er)
      with None True f f1 f2 have "w' = w2" by (simp add: vtpc_fsync_def cache_flush_all_def)
      with s2 j2 show ?thesis by simp
    next
      case n2: None
      obtain r3 w3 where f3: "fsync w2 = (r3, w3)" by (cases "fsync w2")
      note e3 = fsync_eff [OF f3]
      from safe_world [OF s2, of w3] e3 have s3: "safe h w3" by simp
      from j2 e3 have j3: "holds J h w3" by (simp add: holds_def)
      show ?thesis
      proof (cases r3)
        case (Some er)
        with None n2 True f f1 f2 f3 have "w' = w3" by (simp add: vtpc_fsync_def cache_flush_all_def)
        with s3 j3 show ?thesis by simp
      next
        case n3: None
        with None n2 True f f1 f2 f3 have ft: "ftruncate w3 (flags h) (size_h h) = (rc, w')"
          by (simp add: vtpc_fsync_def cache_flush_all_def)
        note e4 = ftruncate_eff [OF ft]
        from safe_world [OF s3, of w'] e4 have s4: "safe h w'" by simp
        have "holds J h w'"
        proof (cases rc)
          case (Some er)
          with e4 j3 show ?thesis by (simp add: holds_def)
        next
          case None
          with e4 have dk: "disk w' = disk_truncate (disk w3) (nat (size_h h))"
            and pg: "pages w' = pages w3" and nn: "0 \<le> size_h h" by simp_all
          from stable_truncate [OF st j3 [unfolded holds_def] nn]
          show ?thesis unfolding holds_def pg dk .
        qed
        with s4 show ?thesis by simp
      qed
    qed
  qed
qed

lemma off_t_add_range: "off_t_add a b < 2 ^ 63"
  unfolding off_t_add_def using sint_lt [of "word_of_int a + word_of_int b :: 64 word"] by simp

lemma vtpc_lseek_holds:
  assumes s: "safe h w" and j: "holds J h w" and l: "vtpc_lseek h off wh = (r, h')"
  shows "safe h' w \<and> holds J h' w \<and> static_eq h (h'\<lparr>pos := pos h\<rparr>)"
proof -
  have "h' = h \<or> (\<exists>np\<ge>0. h' = h\<lparr>pos := np\<rparr>)"
  proof (cases "h' = h")
    case False
    with l have "h' = h\<lparr>pos := pos h'\<rparr>" "0 \<le> pos h'"
      by (auto simp: vtpc_lseek_def Let_def split: if_splits)
    then show ?thesis by blast
  qed simp
  then show ?thesis
  proof
    assume "h' = h"
    with s j show ?thesis by (simp add: static_eq_def)
  next
    assume "\<exists>np\<ge>0. h' = h\<lparr>pos := np\<rparr>"
    then obtain np where np: "0 \<le> np" "h' = h\<lparr>pos := np\<rparr>" by blast
    with safe_pos [OF s np(1)] j show ?thesis by (simp add: holds_def static_eq_def)
  qed
qed

lemma vtpc_read_holds:
  assumes st: "stable J" and s: "safe h w" and j: "holds J h w"
    and r: "vtpc_read h bn count w = Some (res, out, h', w')"
  shows "safe h' w' \<and> holds J h' w' \<and> static_eq h (h'\<lparr>pos := pos h\<rparr>)"
proof (cases "vtpc_read h bn count w = vtpc_read_loop h count 0 [] w")
  case True
  with r have "vtpc_read_loop h count 0 [] w = Some (res, out, h', w')" by simp
  from vtpc_read_loop_holds [OF st this s j] show ?thesis by (simp add: read_post_def)
next
  case False
  with r have "h' = h" "w' = w" by (auto simp: vtpc_read_def split: if_splits)
  with s j show ?thesis by (simp add: static_eq_def)
qed

lemma vtpc_write_safe:
  assumes s: "safe h w" and r: "vtpc_write h buf count w = Some (res, h', w')"
  shows "safe h' w'"
proof (cases "vtpc_write h buf count w =
    vtpc_write_loop (if flags h AND O_APPEND \<noteq> 0 then h\<lparr>pos := size_h h\<rparr> else h)
      (case buf of Some b \<Rightarrow> b | None \<Rightarrow> []) count 0 w")
  case True
  let ?h1 = "if flags h AND O_APPEND \<noteq> 0 then h\<lparr>pos := size_h h\<rparr> else h"
  let ?b = "case buf of Some b \<Rightarrow> b | None \<Rightarrow> []"
  from True r have run: "vtpc_write_loop ?h1 ?b count 0 w = Some (res, h', w')" by simp
  have s1: "safe ?h1 w" using s safe_pos [OF s, of "size_h h"] safe_misc [OF s] by simp
  have "write_post (\<lambda>n fl ps sz pg d. True) ?h1 count 0 (res, h', w')"
    by (rule vtpc_write_loop_holds [OF _ wstep_True run s1, of "pos ?h1"])
       (simp_all add: stable_True holds_def)
  then show ?thesis by (simp add: write_post_def)
next
  case False
  with r have "h' = h" "w' = w" by (auto simp: vtpc_write_def Let_def split: if_splits)
  with s show ?thesis by simp
qed

lemma step_safe:
  assumes s: "safe h w" and x: "step x h w = Some (h', w')"
  shows "safe h' w'"
proof (cases x)
  case (Read bn count)
  with x obtain res out where "vtpc_read h bn count w = Some (res, out, h', w')"
    by (auto split: option.splits)
  from vtpc_read_holds [OF stable_True s _ this] show ?thesis by (simp add: holds_def)
next
  case (Write buf count)
  with x obtain res where "vtpc_write h buf count w = Some (res, h', w')"
    by (auto split: option.splits)
  from vtpc_write_safe [OF s this] show ?thesis .
next
  case (Lseek off wh)
  with x have "vtpc_lseek h off wh = (fst (vtpc_lseek h off wh), h')" "w' = w" by auto
  from vtpc_lseek_holds [OF s _ this(1), of "\<lambda>fl ps sz pg d. True"] this(2) show ?thesis
    by (simp add: holds_def)
next
  case Fsync
  with x have "vtpc_fsync h w = (fst (vtpc_fsync h w), w')" "h' = h" by auto
  from vtpc_fsync_holds [OF stable_True s _ this(1)] this(2) show ?thesis
    by (simp add: holds_def)
next
  case (Inject fs)
  with x have "h' = h" "w' = w\<lparr>faults := fs\<rparr>" by auto
  with safe_world [OF s, of w'] show ?thesis by simp
qed

section \<open>Reachable states\<close>

lemma ht_init_eff:
  "ht_init n w = (r, w') \<Longrightarrow>
     pages w' = pages w \<and> disk w' = disk w \<and> next_addr w \<le> next_addr w' \<and>
     (\<forall>t. r = Inr t \<longrightarrow> t = fresh_table n)"
  by (auto simp: ht_init_def alloc_def next_fault_def fresh_table_def Let_def
      split: list.splits option.splits prod.splits if_splits)

lemma cache_init_eff:
  assumes "cache_init cfg ps w = Some (Inr c, w')"
  shows "page_size c = ps \<and> a1in c = [] \<and> am c = [] \<and> a1out c = [] \<and>
     (\<exists>n>0. resident c = fresh_table n) \<and> (\<exists>n>0. ghosts c = fresh_table n) \<and>
     pages w' = pages w \<and> disk w' = disk w \<and> next_addr w \<le> next_addr w'"
proof -
  have "\<exists>n1 n2 t g w1. 0 < n1 \<and> 0 < n2 \<and> ht_init n1 w = (Inr t, w1) \<and>
      ht_init n2 w1 = (Inr g, w') \<and> page_size c = ps \<and> a1in c = [] \<and> am c = [] \<and>
      a1out c = [] \<and> resident c = t \<and> ghosts c = g"
  proof (cases "cfg < 4")
    case True
    from assms [unfolded cache_init_small [OF True]] obtain t g w1 where
      "ht_init 16 w = (Inr t, w1)" "ht_init 8 w1 = (Inr g, w')"
      "page_size c = ps \<and> a1in c = [] \<and> am c = [] \<and> a1out c = [] \<and> resident c = t \<and> ghosts c = g"
      by (auto split: prod.splits sum.splits)
    then show ?thesis by (intro exI [of _ 16] exI [of _ 8] exI [of _ t] exI [of _ g] exI [of _ w1]) simp
  next
    case False
    from assms [unfolded cache_init_large [OF False]] obtain r1 r2 t g w1 where
      r: "next_pow2 (cfg * 4) = Some r1" "next_pow2 (cfg div 2 * 4) = Some r2" and
      "ht_init (unat r1) w = (Inr t, w1)" "ht_init (unat r2) w1 = (Inr g, w')"
      "page_size c = ps \<and> a1in c = [] \<and> am c = [] \<and> a1out c = [] \<and> resident c = t \<and> ghosts c = g"
      by (auto split: option.splits prod.splits sum.splits)
    with next_pow2_pos [OF r(1)] next_pow2_pos [OF r(2)] show ?thesis
      by (intro exI [of _ "unat r1"] exI [of _ "unat r2"] exI [of _ t] exI [of _ g]
          exI [of _ w1]) simp
  qed
  then obtain n1 n2 t g w1 where n: "0 < n1" "0 < n2" and h1: "ht_init n1 w = (Inr t, w1)"
    and h2: "ht_init n2 w1 = (Inr g, w')"
    and c: "page_size c = ps" "a1in c = []" "am c = []" "a1out c = []" "resident c = t"
      "ghosts c = g" by blast
  from ht_init_eff [OF h1] ht_init_eff [OF h2] n c show ?thesis by auto
qed

lemma lookup_fresh_table: "\<not> lookup (fresh_table n) k a"
  by (auto simp: lookup_def occ_def fresh_table_def)

lemma ht_ok_fresh_table: "0 < n \<Longrightarrow> ht_ok (fresh_table n)"
  unfolding fresh_table_def by (rule ht_ok_fresh)

lemma vtpc_open_eff:
  assumes o: "vtpc_open env sys_ps mode g w0 = Some (Inr h, g', w)"
  shows "used h \<and> flags h = mode \<and> pos h = 0 \<and> size_h h = int (length (disk w0)) \<and>
     page_size (cache h) = vtpc_page_size sys_ps \<and> a1in (cache h) = [] \<and> am (cache h) = [] \<and>
     a1out (cache h) = [] \<and> (\<exists>n>0. resident (cache h) = fresh_table n) \<and>
     pages w = pages w0 \<and> disk w = disk w0 \<and> next_addr w0 \<le> next_addr w"
proof -
  obtain f1 w1 where n1: "next_fault w0 = (f1, w1)" by (cases "next_fault w0")
  obtain f2 w2 where n2: "(if f1 = Some EINVAL then next_fault w1 else (f1, w1)) = (f2, w2)"
    by (cases "if f1 = Some EINVAL then next_fault w1 else (f1, w1)")
  obtain f3 w3 where n3: "next_fault w2 = (f3, w3)" by (cases "next_fault w2")
  from n1 n2 n3 have w3: "pages w3 = pages w0" "disk w3 = disk w0" "next_addr w3 = next_addr w0"
    by (auto simp: next_fault_def split: list.splits if_splits)
  let ?h = "handle_zero\<lparr>used := True, flags := mode, direct := (f1 = None), pos := 0,
      size_h := int (length (disk w3))\<rparr>"
  from o n1 n2 n3 obtain c where
    ci: "cache_init (g_cfg_cache_pages (vtpc_init_once env g)) (vtpc_page_size sys_ps) w3 =
         Some (Inr c, w)" and h: "h = ?h\<lparr>cache := c\<rparr>"
    by (auto simp: vtpc_open_def Let_def split: option.splits sum.splits prod.splits if_splits)
  from cache_init_eff [OF ci] h w3 show ?thesis by auto
qed

lemma vtpc_page_size_pos: "0 < vtpc_page_size x"
  by (simp add: vtpc_page_size_def)

lemma vtpc_open_safe:
  assumes o: "vtpc_open env sys_ps mode g w0 = Some (Inr h, g', w)" and e: "pages w0 = Map.empty"
  shows "safe h w"
proof -
  note f = vtpc_open_eff [OF o]
  then obtain n where n: "0 < n" "resident (cache h) = fresh_table n" by blast
  show ?thesis
    unfolding safe_def using f e n ht_ok_fresh_table [OF n(1)] lookup_fresh_table [of n]
      vtpc_page_size_pos [of sys_ps]
    by simp
qed

lemma reachable_safe: "reachable h w \<Longrightarrow> safe h w"
proof (induction rule: reachable.induct)
  case (r_open env sys_ps mode g d fs h g' w)
  then show ?case by (intro vtpc_open_safe) (auto simp: world_init_def)
next
  case (r_step h w x h' w')
  then show ?case using step_safe by blast
qed

lemma run_reachable: "reachable h w \<Longrightarrow> run ops h w = Some (h', w') \<Longrightarrow> reachable h' w'"
proof (induction ops arbitrary: h w)
  case Nil
  then show ?case by simp
next
  case (Cons x xs)
  then obtain h1 w1 where s: "step x h w = Some (h1, w1)" and r: "run xs h1 w1 = Some (h', w')"
    by (auto split: option.splits)
  from Cons.IH [OF reachable.r_step [OF Cons.prems(1) s] r] show ?case .
qed

lemma session_reachable:
  "session env sys_ps mode d ops = Some (h, w) \<Longrightarrow> reachable h w"
  unfolding session_def
  by (auto split: option.splits sum.splits prod.splits intro: run_reachable reachable.r_open)



section \<open>The zero tail of a page buffer\<close>

text \<open>
  C9. In every state that a sequence of operations on an opened handle reaches, every
  page entry on A1in or Am, every entry that the resident index returns, and every
  allocated entry has a buffer of \<open>page_size\<close> bytes, \<open>valid_len \<le> page_size\<close>, and zeros
  at every index from \<open>valid_len\<close> up to \<open>page_size\<close>; an entry that \<open>load_page\<close> returns in
  such a state has the same property.
\<close>

theorem C9_valid_len_zero_tail:
  assumes "reachable h w"
  shows "(\<forall>p \<in> set (a1in (cache h) @ am (cache h)). valid_len_ok h w p) \<and>
         (\<forall>k p. ht_get (resident (cache h)) k = Some p \<and> p \<noteq> NULL \<longrightarrow>
            valid_len_ok h w p \<and> page_no (deref w p) = k) \<and>
         (\<forall>p. pages w p \<noteq> None \<longrightarrow> valid_len_ok h w p) \<and>
         (\<forall>pn p w'. load_page h pn w = (Inr p, w') \<longrightarrow> valid_len_ok h w' p)"
proof -
  note s = reachable_safe [OF assms]
  have live: "valid_len_ok h w p" if "pages w p = Some e" for p e
    using safe_entry [OF s that] that by (simp add: valid_len_ok_def entry_ok_def)
  have a: "\<forall>p \<in> set (a1in (cache h) @ am (cache h)). valid_len_ok h w p"
  proof
    fix p assume "p \<in> set (a1in (cache h) @ am (cache h))"
    from safe_live [OF s this] live show "valid_len_ok h w p" by metis
  qed
  have b: "valid_len_ok h w p \<and> page_no (deref w p) = k"
    if "ht_get (resident (cache h)) k = Some p" "p \<noteq> NULL" for k p
  proof -
    from safe_lookup [OF s lookup_ht_get [OF that]] obtain e where
      "pages w p = Some e" "page_no e = k" by blast
    with live show ?thesis by (simp add: deref_def)
  qed
  have c: "valid_len_ok h w p" if "pages w p \<noteq> None" for p
    using that live by (cases "pages w p") auto
  have d: "valid_len_ok h w' p" if "load_page h pn w = (Inr p, w')" for pn p w'
    using load_page_eff [OF that] entry_ok_loaded [of "page_size (cache h)" pn "disk w"]
    by (simp add: valid_len_ok_def entry_ok_def)
  from a b c d show ?thesis by blast
qed

theorem C9_valid_len_zero_tail_witness:
  "obs (\<lambda>h w. valid_len_ok h w 7 \<and> a1in (cache h) = [7] \<and> page_no (deref w 7) = 1 \<and>
        valid_len (deref w 7) = 905)
     (session (Some ''4'') 4096 O_RDWR [] [Lseek 5000 SEEK_SET, Write (Some [7]) 1]) = Some True"
proof -
  have ev: "obs (\<lambda>h w. (a1in (cache h), page_no (deref w 7), valid_len (deref w 7)))
     (session (Some ''4'') 4096 O_RDWR [] [Lseek 5000 SEEK_SET, Write (Some [7]) 1])
     = Some ([7], 1, 905)"
    unfolding session_def open_c4 by (simp add: scen_defs cong: ev_congs)
  then obtain h w where sw: "session (Some ''4'') 4096 O_RDWR []
      [Lseek 5000 SEEK_SET, Write (Some [7]) 1] = Some (h, w)"
    and f: "a1in (cache h) = [7]" "page_no (deref w 7) = 1" "valid_len (deref w 7) = 905"
    by (auto simp: obs_def split: option.splits)
  from C9_valid_len_zero_tail [OF session_reachable [OF sw]] f(1)
  have "valid_len_ok h w 7" by simp
  with f show ?thesis unfolding obs_def sw by simp
qed

section \<open>A writeback that fails during an eviction\<close>




end
